theory Spec2Isabelle
  imports Main
begin

section \<open>sse.js: data model\<close>

text \<open>
  The development embeds \<^verbatim>\<open>src/sse.ts\<close>, the class \<^verbatim>\<open>SSE\<close>.

  Strings are lists of characters; one \<^typ>\<open>char\<close> stands for one code unit of a
  JavaScript string, so the model covers the code units below 256.

  A callback is a reference to a function object.  \<^verbatim>\<open>noop\<close> is the module's
  constant \<^verbatim>\<open>const noop = () => {}\<close>; every other function is \<open>Fn n\<close>, and two
  callbacks are the same reference exactly when they are equal.
\<close>

datatype callback = Noop | Fn nat

text \<open>
  An event object: \<^verbatim>\<open>type\<close>, the ad hoc fields \<^verbatim>\<open>data\<close>, \<^verbatim>\<open>id\<close>, \<^verbatim>\<open>readyState\<close> the
  code attaches (\<open>None\<close> when the field was never assigned, or holds \<^verbatim>\<open>null\<close>),
  \<^verbatim>\<open>source\<close> (the instance that dispatched it) and \<^verbatim>\<open>defaultPrevented\<close>.
\<close>

record event =
  ev_type :: string
  ev_data :: "string option"
  ev_id :: "string option"
  ev_readyState :: "int option"
  ev_source :: "nat option"
  defaultPrevented :: bool

text \<open>
  \<^verbatim>\<open>new CustomEvent(type)\<close>: no ad hoc field yet, not cancelled.
\<close>

definition CustomEvent :: "string \<Rightarrow> event" where
  "CustomEvent t =
     \<lparr>ev_type = t, ev_data = None, ev_id = None, ev_readyState = None,
      ev_source = None, defaultPrevented = False\<rparr>"

text \<open>
  The transport object (\<^verbatim>\<open>XMLHttpRequest\<close>), reduced to the fields the class reads.
  The host updates them and then calls the handlers; a \<^verbatim>\<open>ProgressEvent\<close> gives access
  to the transport as \<^verbatim>\<open>currentTarget\<close>.
\<close>

record transport =
  status :: int
  responseText :: string
  response :: string
  xhr_readyState :: nat

definition DONE :: nat where
  "DONE = 4"

record ProgressEvent =
  currentTarget :: transport

text \<open>
  The instance.  \<open>listeners\<close> is \<^verbatim>\<open>Record<string, Callback[]>\<close>; \<open>handlers\<close> holds the
  instance's own properties named \<^verbatim>\<open>"on" + type\<close>, keyed by \<open>type\<close> (the six the class
  declares, and whatever the caller assigns).  \<open>self\<close> identifies the instance.  The
  request configuration (\<^verbatim>\<open>url\<close>, \<^verbatim>\<open>headers\<close>, \<^verbatim>\<open>payload\<close>, \<^verbatim>\<open>method\<close>,
  \<^verbatim>\<open>withCredentials\<close>) is only handed to the transport and is left out, as is the
  console output under \<^verbatim>\<open>debug\<close>.
\<close>

record sse =
  self :: nat
  readyState :: int
  FIELD_SEPARATOR :: string
  progress :: nat
  chunk :: string
  xhr :: "transport option"
  listeners :: "string \<rightharpoonup> callback list"
  handlers :: "string \<rightharpoonup> callback"

definition INITIALIZING :: int where "INITIALIZING = - 1"
definition CONNECTING :: int where "CONNECTING = 0"
definition OPEN :: int where "OPEN = 1"
definition CLOSED :: int where "CLOSED = 2"

text \<open>
  The field initialisers of the class: the state of an instance before \<^verbatim>\<open>stream()\<close>.
\<close>

definition new_sse :: "nat \<Rightarrow> sse" where
  "new_sse me =
     \<lparr>self = me, readyState = INITIALIZING, FIELD_SEPARATOR = '':'', progress = 0,
      chunk = [], xhr = None, listeners = Map.empty,
      handlers = [''message'' \<mapsto> Noop, ''open'' \<mapsto> Noop, ''load'' \<mapsto> Noop,
                  ''readystatechange'' \<mapsto> Noop, ''error'' \<mapsto> Noop, ''abort'' \<mapsto> Noop]\<rparr>"

section \<open>The listener registry\<close>

text \<open>
  An exception the code raises is a value; the only one that arises in the class itself
  is the \<^verbatim>\<open>TypeError\<close> of calling a method that the receiver does not have.
\<close>

datatype error = TypeError

text \<open>
  \<^verbatim>\<open>this.listeners\<close> is created as the object literal \<^verbatim>\<open>{}\<close>, so besides its own
  properties (the map \<open>listeners\<close>) it answers for the property names every object
  inherits from \<^verbatim>\<open>Object.prototype\<close>.  \<^verbatim>\<open>this.listeners[type]\<close> is then one of: an array
  of callbacks (an own property), \<^verbatim>\<open>undefined\<close>, or an inherited value, which is truthy,
  is not \<^verbatim>\<open>undefined\<close> and has none of the array methods.
\<close>

definition object_prototype_names :: "string list" where
  "object_prototype_names =
     [''constructor'', ''hasOwnProperty'', ''isPrototypeOf'', ''propertyIsEnumerable'',
      ''toLocaleString'', ''toString'', ''valueOf'', ''__proto__'',
      ''__defineGetter__'', ''__defineSetter__'', ''__lookupGetter__'', ''__lookupSetter__'']"

datatype registry_value = Undefined | Array "callback list" | Inherited

definition listeners_at :: "sse \<Rightarrow> string \<Rightarrow> registry_value" where
  "listeners_at s t =
     (case listeners s t of
        Some ls \<Rightarrow> Array ls
      | None \<Rightarrow> if t \<in> set object_prototype_names then Inherited else Undefined)"

text \<open>
  \<^verbatim>\<open>addEventListener\<close>: create the list when the type has none, push the listener unless
  the list includes it.  On a value without \<^verbatim>\<open>includes\<close> the call throws.
\<close>

definition addEventListener :: "sse \<Rightarrow> string \<Rightarrow> callback \<Rightarrow> error + sse" where
  "addEventListener s t listener =
     (let s1 = (if listeners_at s t = Undefined
                then s\<lparr>listeners := (listeners s)(t \<mapsto> [])\<rparr>
                else s)
      in case listeners_at s1 t of
           Array ls \<Rightarrow>
             Inr (if listener \<notin> set ls
                  then s1\<lparr>listeners := (listeners s1)(t \<mapsto> ls @ [listener])\<rparr>
                  else s1)
         | _ \<Rightarrow> Inl TypeError)"

text \<open>
  \<^verbatim>\<open>removeEventListener\<close>: nothing for an unknown type; otherwise filter the reference
  out, and delete the entry when nothing is left.  On a value without \<^verbatim>\<open>filter\<close> the call
  throws.
\<close>

definition removeEventListener :: "sse \<Rightarrow> string \<Rightarrow> callback \<Rightarrow> error + sse" where
  "removeEventListener s t listener =
     (case listeners_at s t of
        Undefined \<Rightarrow> Inr s
      | Inherited \<Rightarrow> Inl TypeError
      | Array ls \<Rightarrow>
          (let filtered = filter (\<lambda>l. l \<noteq> listener) ls
           in if length filtered = 0
              then Inr (s\<lparr>listeners := (listeners s)(t := None)\<rparr>)
              else Inr (s\<lparr>listeners := (listeners s)(t \<mapsto> filtered)\<rparr>)))"

text \<open>
  A sequence of calls by the owner of the instance; a call that throws leaves the instance
  as it was.
\<close>

datatype registry_op = Add string callback | Remove string callback

definition after_call :: "sse \<Rightarrow> error + sse \<Rightarrow> sse" where
  "after_call s r = (case r of Inl _ \<Rightarrow> s | Inr s' \<Rightarrow> s')"

fun apply_registry_op :: "sse \<Rightarrow> registry_op \<Rightarrow> sse" where
  "apply_registry_op s (Add t l) = after_call s (addEventListener s t l)"
| "apply_registry_op s (Remove t l) = after_call s (removeEventListener s t l)"

definition apply_registry_ops :: "sse \<Rightarrow> registry_op list \<Rightarrow> sse" where
  "apply_registry_ops s ops = foldl apply_registry_op s ops"

section \<open>Dispatch\<close>

text \<open>
  What a function object does when it is called with an event is given by a
  \<open>behaviour\<close>: \<open>env n ev\<close> holds when the call of \<open>Fn n\<close> on \<open>ev\<close> cancels the event (it
  calls \<^verbatim>\<open>preventDefault()\<close> on a cancelable event).  \<^verbatim>\<open>noop\<close> cancels nothing.  A
  callback does not throw and does not call back into the instance while it runs.
\<close>

type_synonym behaviour = "nat \<Rightarrow> event \<Rightarrow> bool"

definition invoke :: "behaviour \<Rightarrow> callback \<Rightarrow> event \<Rightarrow> event" where
  "invoke env cb ev =
     (case cb of
        Noop \<Rightarrow> ev
      | Fn n \<Rightarrow> ev\<lparr>defaultPrevented := defaultPrevented ev \<or> env n ev\<rparr>)"

text \<open>
  \<^verbatim>\<open>this.listeners[event.type].every(callback => { callback(event); return
  !event.defaultPrevented; })\<close>: \<^verbatim>\<open>every\<close> calls its argument on the elements in order and
  stops at the first call that returns false.  The result is what \<^verbatim>\<open>every\<close> returns, the
  event as the calls left it, and the callbacks that were called, in order.
\<close>

fun every_listener :: "behaviour \<Rightarrow> callback list \<Rightarrow> event \<Rightarrow> bool \<times> event \<times> callback list" where
  "every_listener env [] ev = (True, ev, [])"
| "every_listener env (cb # cbs) ev =
     (let ev' = invoke env cb ev
      in if defaultPrevented ev' then (False, ev', [cb])
         else (case every_listener env cbs ev' of
                 (r, ev'', called) \<Rightarrow> (r, ev'', cb # called)))"

text \<open>
  The second half of \<^verbatim>\<open>dispatchEvent\<close>: \<^verbatim>\<open>if (this.listeners[event.type]) return
  this.listeners[event.type].every(...); return true\<close>.  An inherited value passes the
  test, and the call of its \<^verbatim>\<open>every\<close> throws.
\<close>

definition dispatch_listeners ::
  "behaviour \<Rightarrow> sse \<Rightarrow> event \<Rightarrow> callback list \<Rightarrow> (error + bool) \<times> event option \<times> callback list" where
  "dispatch_listeners env s ev first =
     (case listeners_at s (ev_type ev) of
        Array ls \<Rightarrow>
          (case every_listener env ls ev of
             (r, ev', called) \<Rightarrow> (Inr r, Some ev', first @ called))
      | Inherited \<Rightarrow> (Inl TypeError, Some ev, first)
      | Undefined \<Rightarrow> (Inr True, Some ev, first))"

text \<open>
  \<^verbatim>\<open>dispatchEvent\<close>.  The result is the value returned (or the exception thrown), the
  event as dispatch left it and the callbacks called, in order (the primary handler
  first, when the instance has one for the type).
\<close>

definition dispatchEvent ::
  "behaviour \<Rightarrow> sse \<Rightarrow> event option \<Rightarrow> (error + bool) \<times> event option \<times> callback list" where
  "dispatchEvent env s e =
     (case e of
        None \<Rightarrow> (Inr True, None, [])
      | Some event \<Rightarrow>
          (let ev1 = event\<lparr>ev_source := Some (self s)\<rparr>
           in case handlers s (ev_type ev1) of
                Some h \<Rightarrow>
                  (let ev2 = invoke env h ev1
                   in if defaultPrevented ev2 then (Inr False, Some ev2, [h])
                      else dispatch_listeners env s ev2 [h])
              | None \<Rightarrow> dispatch_listeners env s ev1 []))"

section \<open>The event chunk parser\<close>

definition LF :: char where "LF = CHR 0x0A"
definition CR :: char where "CR = CHR 0x0D"

text \<open>
  \<^verbatim>\<open>chunk.split(/\n|\r\n|\r/)\<close>: the pieces between the line breaks.  At each position
  the alternatives are tried in the order written; \<open>acc\<close> is the piece read so far.
\<close>

fun split_lines_from :: "string \<Rightarrow> string \<Rightarrow> string list" where
  "split_lines_from acc [] = [acc]"
| "split_lines_from acc (c # cs) =
     (if c = LF then acc # split_lines_from [] cs
      else if c = CR then
        (case cs of
           [] \<Rightarrow> acc # split_lines_from [] cs
         | d # ds \<Rightarrow>
             if d = LF then acc # split_lines_from [] ds
             else acc # split_lines_from [] cs)
      else split_lines_from (acc @ [c]) cs)"

definition split_lines :: "string \<Rightarrow> string list" where
  "split_lines str = split_lines_from [] str"

text \<open>
  \<^verbatim>\<open>line.indexOf(sep)\<close>: the first position at which \<open>sep\<close> occurs in \<open>line\<close>, or \<open>-1\<close>.
\<close>

fun indexOf :: "string \<Rightarrow> string \<Rightarrow> int" where
  "indexOf [] sep = (if sep = [] then 0 else - 1)"
| "indexOf (c # cs) sep =
     (if take (length sep) (c # cs) = sep then 0
      else (let i = indexOf cs sep in if i < 0 then - 1 else i + 1))"

text \<open>
  One line of a record: the field name and the value, or nothing for a comment.
  \<^verbatim>\<open>line[index + 1]\<close> is \<^verbatim>\<open>undefined\<close> past the end of the line.
\<close>

definition parse_line :: "string \<Rightarrow> string \<Rightarrow> (string \<times> string) option" where
  "parse_line sep line =
     (let index = indexOf line sep
      in if index > 0 then
           (let skip = (if nat index + 1 < length line \<and> line ! (nat index + 1) = CHR '' ''
                        then 2 else 1)
            in Some (take (nat index) line, drop (nat index + skip) line))
         else if index < 0 then Some (line, [])
         else None)"

record eventFields =
  f_id :: "string option"
  f_retry :: "string option"
  f_data :: "string option"
  f_event :: "string option"

definition no_fields :: eventFields where
  "no_fields = \<lparr>f_id = None, f_retry = None, f_data = None, f_event = None\<rparr>"

text \<open>
  The body of the \<^verbatim>\<open>forEach\<close> over the lines.  A field name that is none of the four
  keys leaves the four fields as they are (a name that \<^verbatim>\<open>in\<close> finds on the prototype
  of the object literal gets a property of its own, which the construction of the event
  never reads).
\<close>

definition process_line :: "string \<Rightarrow> eventFields \<Rightarrow> string \<Rightarrow> eventFields" where
  "process_line sep ef line =
     (case parse_line sep line of
        None \<Rightarrow> ef
      | Some (field, val) \<Rightarrow>
          if field \<notin> set [''id'', ''retry'', ''data'', ''event''] then ef
          else if field = ''data'' \<and> f_data ef \<noteq> None
            then ef\<lparr>f_data := Some (the (f_data ef) @ [LF] @ val)\<rparr>
          else if field = ''id'' then ef\<lparr>f_id := Some val\<rparr>
          else if field = ''retry'' then ef\<lparr>f_retry := Some val\<rparr>
          else if field = ''data'' then ef\<lparr>f_data := Some val\<rparr>
          else ef\<lparr>f_event := Some val\<rparr>)"

definition parse_fields :: "string \<Rightarrow> string list \<Rightarrow> eventFields" where
  "parse_fields sep lines = foldl (process_line sep) no_fields lines"

text \<open>
  \<^verbatim>\<open>_parseEventChunk\<close>: \<open>None\<close> is \<^verbatim>\<open>null\<close>.
\<close>

definition parseEventChunk :: "sse \<Rightarrow> string \<Rightarrow> event option" where
  "parseEventChunk s str =
     (if str = [] then None
      else
        (let ef = parse_fields (FIELD_SEPARATOR s) (split_lines str)
         in Some ((CustomEvent (case f_event ef of
                                  None \<Rightarrow> ''message''
                                | Some t \<Rightarrow> if t = [] then ''message'' else t))
                  \<lparr>ev_data := Some (case f_data ef of None \<Rightarrow> [] | Some d \<Rightarrow> d),
                   ev_id := f_id ef\<rparr>)))"

text \<open>
  For the statements about the parser: the values of the lines of a record whose field
  name is \<open>name\<close>, in the order of the lines.
\<close>

definition field_values :: "string \<Rightarrow> string \<Rightarrow> string list \<Rightarrow> string list" where
  "field_values sep name lines =
     map snd (filter (\<lambda>fv. fst fv = name) (List.map_filter (parse_line sep) lines))"

section \<open>The chunk assembler and the connection state machine\<close>

text \<open>
  \<^verbatim>\<open>split(/(\r\n\r\n|\r\r|\n\n)/g)\<close>: the pieces between the delimiters and, because of
  the capturing group, each delimiter itself as a piece of its own.
\<close>

fun split_records_from :: "string \<Rightarrow> string \<Rightarrow> string list" where
  "split_records_from acc [] = [acc]"
| "split_records_from acc (c # cs) =
     (if take 4 (c # cs) = [CR, LF, CR, LF]
        then acc # [CR, LF, CR, LF] # split_records_from [] (drop 3 cs)
      else if take 2 (c # cs) = [CR, CR]
        then acc # [CR, CR] # split_records_from [] (drop 1 cs)
      else if take 2 (c # cs) = [LF, LF]
        then acc # [LF, LF] # split_records_from [] (drop 1 cs)
      else split_records_from (acc @ [c]) cs)"

definition split_records :: "string \<Rightarrow> string list" where
  "split_records str = split_records_from [] str"

text \<open>
  \<^verbatim>\<open>String.prototype.trim\<close>; the white space and line terminators among the code units
  below 256.
\<close>

definition is_space :: "char \<Rightarrow> bool" where
  "is_space c \<longleftrightarrow> c \<in> set [CHR 0x09, CHR 0x0A, CHR 0x0B, CHR 0x0C, CHR 0x0D, CHR 0x20, CHR 0xA0]"

definition trim :: "string \<Rightarrow> string" where
  "trim str = rev (dropWhile is_space (rev (dropWhile is_space str)))"

text \<open>
  What the instance makes observable: one entry per call of \<^verbatim>\<open>dispatchEvent\<close> with an
  event, holding the event as passed, \<^verbatim>\<open>readyState\<close> at the time of the call, the
  callbacks called, and what the call returned or threw.
\<close>

record dispatched =
  d_event :: event
  d_state :: int
  d_calls :: "callback list"
  d_result :: "error + bool"

text \<open>
  A method of the instance that has effects returns the new state, the entries in order,
  and the exception it threw, if any; the state and the entries are then those reached
  when it was thrown.  \<open>then_do\<close> is the sequencing of two statements.
\<close>

type_synonym outcome = "sse \<times> dispatched list \<times> error option"

definition then_do :: "outcome \<Rightarrow> (sse \<Rightarrow> outcome) \<Rightarrow> outcome" where
  "then_do r f =
     (case r of
        (s, tr, Some err) \<Rightarrow> (s, tr, Some err)
      | (s, tr, None) \<Rightarrow> (case f s of (s', tr', err') \<Rightarrow> (s', tr @ tr', err')))"

text \<open>
  A statement \<^verbatim>\<open>this.dispatchEvent(e)\<close>, whose value the class never uses.
\<close>

definition dispatch :: "behaviour \<Rightarrow> sse \<Rightarrow> event option \<Rightarrow> outcome" where
  "dispatch env s e =
     (case e of
        None \<Rightarrow> (s, [], None)
      | Some ev \<Rightarrow>
          (case dispatchEvent env s e of
             (r, _, called) \<Rightarrow>
               (s, [\<lparr>d_event = ev, d_state = readyState s, d_calls = called, d_result = r\<rparr>],
                case r of Inl err \<Rightarrow> Some err | Inr _ \<Rightarrow> None)))"

definition setReadyState :: "behaviour \<Rightarrow> sse \<Rightarrow> int \<Rightarrow> outcome" where
  "setReadyState env s state =
     (let event = (CustomEvent ''readystatechange'')\<lparr>ev_readyState := Some state\<rparr>;
          s' = s\<lparr>readyState := state\<rparr>
      in dispatch env s' (Some event))"

text \<open>
  \<^verbatim>\<open>stream()\<close>; \<open>x\<close> is the new transport.  What the class asks of the transport
  (\<^verbatim>\<open>open\<close>, \<^verbatim>\<open>setRequestHeader\<close>, \<^verbatim>\<open>send\<close>, and \<^verbatim>\<open>abort\<close> in \<^verbatim>\<open>close()\<close>) has no effect on
  the instance; what the transport reports comes in as notifications.
\<close>

definition stream :: "behaviour \<Rightarrow> sse \<Rightarrow> transport \<Rightarrow> outcome" where
  "stream env s x =
     (case xhr s of
        Some _ \<Rightarrow> (s, [], None)
      | None \<Rightarrow>
          then_do (setReadyState env s CONNECTING) (\<lambda>s'. (s'\<lparr>xhr := Some x\<rparr>, [], None)))"

definition close :: "behaviour \<Rightarrow> sse \<Rightarrow> outcome" where
  "close env s =
     (if readyState s = CLOSED \<or> xhr s = None then (s, [], None)
      else setReadyState env (s\<lparr>xhr := None\<rparr>) CLOSED)"

definition onStreamFailure :: "behaviour \<Rightarrow> sse \<Rightarrow> ProgressEvent \<Rightarrow> outcome" where
  "onStreamFailure env s e =
     (let event = (CustomEvent ''error'')\<lparr>ev_data := Some (response (currentTarget e))\<rparr>
      in then_do (dispatch env s (Some event)) (close env))"

definition onStreamAbort :: "behaviour \<Rightarrow> sse \<Rightarrow> outcome" where
  "onStreamAbort env s =
     then_do (dispatch env s (Some (CustomEvent ''abort''))) (close env)"

text \<open>
  The body of \<^verbatim>\<open>parts.forEach\<close> in \<^verbatim>\<open>_onStreamProgress\<close>, and the loop; an exception ends
  the loop.
\<close>

definition forward_part :: "behaviour \<Rightarrow> sse \<Rightarrow> string \<Rightarrow> outcome" where
  "forward_part env s part =
     (if length (trim part) > 0 then dispatch env s (parseEventChunk s part)
      else (s, [], None))"

fun forward_parts :: "behaviour \<Rightarrow> sse \<Rightarrow> string list \<Rightarrow> outcome" where
  "forward_parts env s [] = (s, [], None)"
| "forward_parts env s (part # parts) =
     then_do (forward_part env s part) (\<lambda>s'. forward_parts env s' parts)"

definition onStreamProgress :: "behaviour \<Rightarrow> sse \<Rightarrow> ProgressEvent \<Rightarrow> outcome" where
  "onStreamProgress env s e =
     (case xhr s of
        None \<Rightarrow> (s, [], None)
      | Some x \<Rightarrow>
          if status x \<noteq> 200 then onStreamFailure env s e
          else
            then_do
              (if readyState s = CONNECTING
               then then_do (dispatch env s (Some (CustomEvent ''open'')))
                      (\<lambda>s'. setReadyState env s' OPEN)
               else (s, [], None))
              (\<lambda>s1.
                 let data = drop (progress s1) (responseText x);
                     s2 = s1\<lparr>progress := progress s1 + length data\<rparr>;
                     parts = split_records (chunk s2 @ data);
                     lastPart = last parts
                 in then_do (forward_parts env s2 (butlast parts))
                      (\<lambda>s3. (s3\<lparr>chunk := lastPart\<rparr>, [], None))))"

definition onStreamLoaded :: "behaviour \<Rightarrow> sse \<Rightarrow> ProgressEvent \<Rightarrow> outcome" where
  "onStreamLoaded env s e =
     then_do (onStreamProgress env s e)
       (\<lambda>s1. then_do (dispatch env s1 (parseEventChunk s1 (chunk s1)))
          (\<lambda>s2. (s2\<lparr>chunk := []\<rparr>, [], None)))"

definition checkStreamClosed :: "behaviour \<Rightarrow> sse \<Rightarrow> outcome" where
  "checkStreamClosed env s =
     (case xhr s of
        None \<Rightarrow> (s, [], None)
      | Some x \<Rightarrow>
          if xhr_readyState x = DONE then setReadyState env s CLOSED else (s, [], None))"

text \<open>
  The host: it has updated the transport object before it calls a handler, so the
  instance (while it holds the transport) sees the new fields through \<^verbatim>\<open>this.xhr\<close>.  An
  exception that leaves a handler is reported by the host, and the next notification is
  delivered to the instance as the handler left it.
\<close>

datatype notification =
  Progress transport | Load transport | ReadyStateChange transport
  | Error transport | Abort transport

fun target :: "notification \<Rightarrow> transport" where
  "target (Progress x) = x"
| "target (Load x) = x"
| "target (ReadyStateChange x) = x"
| "target (Error x) = x"
| "target (Abort x) = x"

definition deliver :: "behaviour \<Rightarrow> sse \<Rightarrow> notification \<Rightarrow> outcome" where
  "deliver env s n =
     (let s0 = s\<lparr>xhr := map_option (\<lambda>_. target n) (xhr s)\<rparr>;
          e = \<lparr>currentTarget = target n\<rparr>
      in case n of
           Progress _ \<Rightarrow> onStreamProgress env s0 e
         | Load _ \<Rightarrow> onStreamLoaded env s0 e
         | ReadyStateChange _ \<Rightarrow> checkStreamClosed env s0
         | Error _ \<Rightarrow> onStreamFailure env s0 e
         | Abort _ \<Rightarrow> onStreamAbort env s0)"

fun deliver_all :: "behaviour \<Rightarrow> sse \<Rightarrow> notification list \<Rightarrow> sse \<times> dispatched list" where
  "deliver_all env s [] = (s, [])"
| "deliver_all env s (n # ns) =
     (case deliver env s n of
        (s', tr, _) \<Rightarrow> (case deliver_all env s' ns of (s'', tr') \<Rightarrow> (s'', tr @ tr')))"

text \<open>
  For the statements about fragmented delivery: the response texts of successive
  notifications are cumulative when each is a prefix of the next.
\<close>

fun cumulative :: "string list \<Rightarrow> bool" where
  "cumulative [] = True"
| "cumulative [t] = True"
| "cumulative (t # u # ts) = (take (length t) u = t \<and> cumulative (u # ts))"

text \<open>
  The pieces of a text made of records \<open>r\<close>, each followed by its delimiter \<open>d\<close>, and of
  a trailing piece \<open>tail\<close>, as \<open>split_records\<close> lists them.
\<close>

definition record_pieces :: "(string \<times> string) list \<Rightarrow> string \<Rightarrow> string list" where
  "record_pieces rds tail = concat (map (\<lambda>(r, d). [r, d]) rds) @ [tail]"

definition delimiter :: "string \<Rightarrow> bool" where
  "delimiter d \<longleftrightarrow> d = [CR, LF, CR, LF] \<or> d = [CR, CR] \<or> d = [LF, LF]"

text \<open>
  For the statements about a closed instance: the notifications whose handlers first look
  at the transport handle.
\<close>

fun progress_or_statechange :: "notification \<Rightarrow> bool" where
  "progress_or_statechange (Progress _) = True"
| "progress_or_statechange (ReadyStateChange _) = True"
| "progress_or_statechange _ = False"

text \<open>
  For the statements about the parser: a line that sets none of the four fields, because
  it is a comment or because its field name is not recognised.
\<close>

definition ignored_line :: "string \<Rightarrow> string \<Rightarrow> bool" where
  "ignored_line sep line =
     (case parse_line sep line of
        None \<Rightarrow> True
      | Some (field, val) \<Rightarrow> field \<notin> set [''id'', ''retry'', ''data'', ''event''])"

text \<open>
  For the statements about delivery: a record whose event does not name a property that
  \<^verbatim>\<open>this.listeners\<close> inherits; \<^verbatim>\<open>dispatchEvent\<close> does not throw on such an event.
\<close>

definition plain_record :: "sse \<Rightarrow> string \<Rightarrow> bool" where
  "plain_record s part =
     (case parseEventChunk s part of
        None \<Rightarrow> True
      | Some ev \<Rightarrow> ev_type ev \<notin> set object_prototype_names)"

text \<open>
  The entries of a statement \<^verbatim>\<open>this.dispatchEvent(e)\<close>, and of one round of the loop over
  the parts.
\<close>

definition emit :: "behaviour \<Rightarrow> sse \<Rightarrow> event option \<Rightarrow> dispatched list" where
  "emit env s e = fst (snd (dispatch env s e))"

definition emit_part :: "behaviour \<Rightarrow> sse \<Rightarrow> string \<Rightarrow> dispatched list" where
  "emit_part env s part = fst (snd (forward_part env s part))"

section \<open>Properties of the listener registry\<close>

lemma listeners_addEventListener:
  "listeners (after_call s (addEventListener s t l)) =
     (case listeners s t of
        None \<Rightarrow> if t \<in> set object_prototype_names then listeners s
                 else (listeners s)(t \<mapsto> [l])
      | Some ls \<Rightarrow> (listeners s)(t \<mapsto> (if l \<in> set ls then ls else ls @ [l])))"
  by (auto simp: addEventListener_def listeners_at_def after_call_def Let_def
      split: option.splits)

lemma listeners_removeEventListener:
  "listeners (after_call s (removeEventListener s t l)) =
     (case listeners s t of
        None \<Rightarrow> listeners s
      | Some ls \<Rightarrow>
          if filter (\<lambda>x. x \<noteq> l) ls = [] then (listeners s)(t := None)
          else (listeners s)(t \<mapsto> filter (\<lambda>x. x \<noteq> l) ls))"
  by (auto simp: removeEventListener_def listeners_at_def after_call_def Let_def
      split: option.splits)

lemma registry_op_keeps:
  assumes inv: "\<And>t ls. listeners s t = Some ls \<Longrightarrow> distinct ls \<and> ls \<noteq> []"
    and got: "listeners (apply_registry_op s op) t = Some ls"
  shows "distinct ls \<and> ls \<noteq> []"
proof (cases op)
  case (Add u l)
  show ?thesis
  proof (cases "u = t")
    case True
    with Add got inv [of t] show ?thesis
      by (auto simp: listeners_addEventListener split: option.splits if_splits)
  next
    case False
    with Add got have "listeners s t = Some ls"
      by (auto simp: listeners_addEventListener split: option.splits if_splits)
    then show ?thesis by (rule inv)
  qed
next
  case (Remove u l)
  show ?thesis
  proof (cases "u = t")
    case True
    with Remove got inv [of t] show ?thesis
      by (auto simp: listeners_removeEventListener split: option.splits if_splits)
  next
    case False
    with Remove got have "listeners s t = Some ls"
      by (auto simp: listeners_removeEventListener split: option.splits if_splits)
    then show ?thesis by (rule inv)
  qed
qed

lemma registry_ops_keep:
  assumes "\<And>t ls. listeners s t = Some ls \<Longrightarrow> distinct ls \<and> ls \<noteq> []"
    and "listeners (apply_registry_ops s ops) t = Some ls"
  shows "distinct ls \<and> ls \<noteq> []"
  using assms
proof (induction ops arbitrary: s t ls)
  case Nil
  then show ?case by (simp add: apply_registry_ops_def)
next
  case (Cons op ops)
  have step: "\<And>u ks. listeners (apply_registry_op s op) u = Some ks \<Longrightarrow> distinct ks \<and> ks \<noteq> []"
    using Cons.prems(1) by (rule registry_op_keeps)
  from Cons.prems(2) have "listeners (apply_registry_ops (apply_registry_op s op) ops) t = Some ls"
    by (simp add: apply_registry_ops_def)
  with step show ?case by (rule Cons.IH)
qed

text \<open>
  C8.  After every sequence of \<^verbatim>\<open>addEventListener\<close> / \<^verbatim>\<open>removeEventListener\<close> calls on a
  new instance, no type maps to a list that holds a callback reference twice and no
  type maps to an empty list.  Registering a reference a second time changes nothing,
  and a removal that leaves a type's list empty deletes the type's entry.
\<close>

theorem registry_invariant:
  "(listeners (apply_registry_ops (new_sse me) ops) t = Some ls \<longrightarrow> distinct ls \<and> ls \<noteq> [])
   \<and> apply_registry_ops s [Add t l, Add t l] = apply_registry_ops s [Add t l]
   \<and> (listeners s t = Some ks \<and> filter (\<lambda>x. x \<noteq> l) ks = []
        \<longrightarrow> removeEventListener s t l = Inr (s\<lparr>listeners := (listeners s)(t := None)\<rparr>))"
proof (intro conjI impI)
  assume "listeners (apply_registry_ops (new_sse me) ops) t = Some ls"
  moreover have "\<And>u ks. listeners (new_sse me) u = Some ks \<Longrightarrow> distinct ks \<and> ks \<noteq> []"
    by (simp add: new_sse_def)
  ultimately have "distinct ls \<and> ls \<noteq> []"
    using registry_ops_keep [of "new_sse me" ops t ls] by blast
  then show "distinct ls" and "ls \<noteq> []" by simp_all
next
  show "apply_registry_ops s [Add t l, Add t l] = apply_registry_ops s [Add t l]"
    by (auto simp: apply_registry_ops_def addEventListener_def listeners_at_def after_call_def
        Let_def split: option.splits)
next
  assume "listeners s t = Some ks \<and> filter (\<lambda>x. x \<noteq> l) ks = []"
  then show "removeEventListener s t l = Inr (s\<lparr>listeners := (listeners s)(t := None)\<rparr>)"
    by (simp add: removeEventListener_def listeners_at_def)
qed

theorem registry_invariant_witness:
  "listeners (apply_registry_ops (new_sse 0)
      [Add ''message'' (Fn 1), Add ''message'' (Fn 1), Add ''message'' (Fn 2),
       Remove ''message'' (Fn 1), Add ''open'' (Fn 1), Remove ''open'' (Fn 1)]) ''message''
     = Some [Fn 2]
   \<and> distinct [Fn 2] \<and> [Fn 2] \<noteq> []
   \<and> listeners (apply_registry_ops (new_sse 0) [Add ''open'' (Fn 1)]) ''open'' = Some [Fn 1]
   \<and> filter (\<lambda>x. x \<noteq> Fn 1) [Fn 1] = []
   \<and> listeners (apply_registry_ops (new_sse 0) [Add ''open'' (Fn 1), Remove ''open'' (Fn 1)])
        ''open'' = None"
  using registry_invariant [where me = 0 and ops = "[Add ''message'' (Fn 1), Add ''message'' (Fn 1),
       Add ''message'' (Fn 2), Remove ''message'' (Fn 1), Add ''open'' (Fn 1), Remove ''open'' (Fn 1)]"
       and t = "''message''" and ls = "[Fn 2]" and s = "new_sse 0" and l = "Fn 1" and ks = "[]"]
    registry_invariant [where me = 0 and ops = "[]" and ls = "[]"
       and s = "apply_registry_ops (new_sse 0) [Add ''open'' (Fn 1)]"
       and t = "''open''" and l = "Fn 1" and ks = "[Fn 1]"]
  by (simp add: apply_registry_ops_def addEventListener_def removeEventListener_def
      listeners_at_def after_call_def new_sse_def object_prototype_names_def Let_def)

section \<open>Properties of dispatch\<close>

lemma invoke_not_prevented:
  "\<not> defaultPrevented (invoke env cb ev) \<Longrightarrow> invoke env cb ev = ev"
  by (cases cb) (auto simp: invoke_def)

lemma invoke_type [simp]: "ev_type (invoke env cb ev) = ev_type ev"
  by (cases cb) (auto simp: invoke_def)

text \<open>
  \<^verbatim>\<open>every\<close> calls the listeners up to and including the first one that leaves the event
  cancelled, and returns true exactly when none did.
\<close>

lemma every_listener_stops:
  "every_listener env ls ev =
     (\<not> (\<exists>cb \<in> set ls. defaultPrevented (invoke env cb ev)),
      (if \<exists>cb \<in> set ls. defaultPrevented (invoke env cb ev)
       then invoke env (hd (dropWhile (\<lambda>cb. \<not> defaultPrevented (invoke env cb ev)) ls)) ev
       else ev),
      takeWhile (\<lambda>cb. \<not> defaultPrevented (invoke env cb ev)) ls
        @ take 1 (dropWhile (\<lambda>cb. \<not> defaultPrevented (invoke env cb ev)) ls))"
proof (induction ls)
  case Nil
  then show ?case by simp
next
  case (Cons cb cbs)
  show ?case
  proof (cases "defaultPrevented (invoke env cb ev)")
    case True
    then show ?thesis by simp
  next
    case False
    then have same: "invoke env cb ev = ev" by (rule invoke_not_prevented)
    with False Cons.IH show ?thesis by (simp add: Let_def)
  qed
qed

text \<open>
  C1, as amended.  For an event whose type has a listener list \<open>ls\<close>, and whose primary
  handler (if the instance has one for the type) does not cancel it, \<^verbatim>\<open>dispatchEvent\<close>
  calls the listeners in registration order up to and including the first one that
  leaves \<^verbatim>\<open>defaultPrevented\<close> set, and calls no listener after it.  It returns
  false exactly when some call left \<^verbatim>\<open>defaultPrevented\<close> set, and true otherwise.
\<close>

theorem dispatchEvent_stops_at_cancel:
  assumes ls: "listeners s (ev_type ev) = Some ls"
    and handler: "\<And>h. handlers s (ev_type ev) = Some h \<Longrightarrow>
                   \<not> defaultPrevented (invoke env h (ev\<lparr>ev_source := Some (self s)\<rparr>))"
  shows "fst (dispatchEvent env s (Some ev)) =
           Inr (\<not> (\<exists>cb \<in> set ls. defaultPrevented (invoke env cb (ev\<lparr>ev_source := Some (self s)\<rparr>))))
       \<and> snd (snd (dispatchEvent env s (Some ev))) =
           (case handlers s (ev_type ev) of None \<Rightarrow> [] | Some h \<Rightarrow> [h])
           @ takeWhile (\<lambda>cb. \<not> defaultPrevented (invoke env cb (ev\<lparr>ev_source := Some (self s)\<rparr>))) ls
           @ take 1 (dropWhile (\<lambda>cb. \<not> defaultPrevented (invoke env cb (ev\<lparr>ev_source := Some (self s)\<rparr>))) ls)"
proof (cases "handlers s (ev_type ev)")
  case None
  with ls show ?thesis
    by (simp add: dispatchEvent_def dispatch_listeners_def listeners_at_def every_listener_stops
        Let_def)
next
  case (Some h)
  then have np: "\<not> defaultPrevented (invoke env h (ev\<lparr>ev_source := Some (self s)\<rparr>))"
    by (rule handler)
  then have same: "invoke env h (ev\<lparr>ev_source := Some (self s)\<rparr>) = ev\<lparr>ev_source := Some (self s)\<rparr>"
    by (rule invoke_not_prevented)
  from np same have "\<not> defaultPrevented ev" by simp
  with same Some ls show ?thesis
    by (simp add: dispatchEvent_def dispatch_listeners_def listeners_at_def every_listener_stops
        Let_def)
qed

text \<open>
  The claim as stated fails: with two listeners for \<^verbatim>\<open>"message"\<close> of which the first
  cancels the event, the second listener is not called.
\<close>

theorem dispatchEvent_all_listeners_counterexample:
  "listeners (apply_registry_ops (new_sse 0) [Add ''message'' (Fn 1), Add ''message'' (Fn 2)])
      ''message'' = Some [Fn 1, Fn 2]
   \<and> handlers (apply_registry_ops (new_sse 0) [Add ''message'' (Fn 1), Add ''message'' (Fn 2)])
      ''message'' = Some Noop
   \<and> fst (dispatchEvent (\<lambda>n ev. n = 1)
        (apply_registry_ops (new_sse 0) [Add ''message'' (Fn 1), Add ''message'' (Fn 2)])
        (Some (CustomEvent ''message''))) = Inr False
   \<and> snd (snd (dispatchEvent (\<lambda>n ev. n = 1)
        (apply_registry_ops (new_sse 0) [Add ''message'' (Fn 1), Add ''message'' (Fn 2)])
        (Some (CustomEvent ''message'')))) = [Noop, Fn 1]
   \<and> Fn 2 \<notin> set (snd (snd (dispatchEvent (\<lambda>n ev. n = 1)
        (apply_registry_ops (new_sse 0) [Add ''message'' (Fn 1), Add ''message'' (Fn 2)])
        (Some (CustomEvent ''message'')))))"
  by (simp add: dispatchEvent_def dispatch_listeners_def listeners_at_def apply_registry_ops_def
      addEventListener_def after_call_def new_sse_def object_prototype_names_def
      CustomEvent_def invoke_def Let_def)

theorem dispatchEvent_stops_at_cancel_witness:
  "listeners ((new_sse 0)\<lparr>listeners := [''message'' \<mapsto> [Fn 1, Fn 2, Fn 3]]\<rparr>) ''message''
     = Some [Fn 1, Fn 2, Fn 3]
   \<and> fst (dispatchEvent (\<lambda>n ev. n = 2)
        ((new_sse 0)\<lparr>listeners := [''message'' \<mapsto> [Fn 1, Fn 2, Fn 3]]\<rparr>)
        (Some (CustomEvent ''message''))) = Inr False
   \<and> snd (snd (dispatchEvent (\<lambda>n ev. n = 2)
        ((new_sse 0)\<lparr>listeners := [''message'' \<mapsto> [Fn 1, Fn 2, Fn 3]]\<rparr>)
        (Some (CustomEvent ''message'')))) = [Noop, Fn 1, Fn 2]"
  using dispatchEvent_stops_at_cancel [of "(new_sse 0)\<lparr>listeners := [''message'' \<mapsto> [Fn 1, Fn 2, Fn 3]]\<rparr>"
      "CustomEvent ''message''" "[Fn 1, Fn 2, Fn 3]" "\<lambda>n ev. n = 2"]
  by (simp add: new_sse_def CustomEvent_def invoke_def)

section \<open>Properties of the parser\<close>

lemma field_values_Nil [simp]: "field_values sep name [] = []"
  by (simp add: field_values_def map_filter_simps)

lemma field_values_Cons:
  "field_values sep name (l # ls) =
     (case parse_line sep l of
        None \<Rightarrow> field_values sep name ls
      | Some (f, v) \<Rightarrow>
          if f = name then v # field_values sep name ls else field_values sep name ls)"
  by (simp add: field_values_def map_filter_simps split: option.splits)

lemma fold_last_wins:
  "f_id (foldl (process_line sep) ef lines) =
     (if field_values sep ''id'' lines = [] then f_id ef
      else Some (last (field_values sep ''id'' lines)))"
  "f_retry (foldl (process_line sep) ef lines) =
     (if field_values sep ''retry'' lines = [] then f_retry ef
      else Some (last (field_values sep ''retry'' lines)))"
  "f_event (foldl (process_line sep) ef lines) =
     (if field_values sep ''event'' lines = [] then f_event ef
      else Some (last (field_values sep ''event'' lines)))"
  by (induction lines arbitrary: ef;
      simp add: field_values_Cons process_line_def split: option.splits prod.splits)+

lemma fold_data_accumulates:
  "f_data (foldl (process_line sep) ef lines) =
     (case f_data ef of
        None \<Rightarrow> (case field_values sep ''data'' lines of
                   [] \<Rightarrow> None
                 | v # ws \<Rightarrow> Some (v @ concat (map (\<lambda>w. LF # w) ws)))
      | Some d \<Rightarrow> Some (d @ concat (map (\<lambda>w. LF # w) (field_values sep ''data'' lines))))"
  by (induction lines arbitrary: ef)
     (auto simp add: field_values_Cons process_line_def split: option.splits prod.splits list.splits)

text \<open>
  C6.  Within one record the \<^verbatim>\<open>data\<close> lines accumulate: the first value sets the field
  and each later value is appended after a line feed; for \<^verbatim>\<open>id\<close>, \<^verbatim>\<open>event\<close> and
  \<^verbatim>\<open>retry\<close> the last occurrence wins.  The record \<^verbatim>\<open>"data: hello\ndata: world"\<close> yields
  the event data \<^verbatim>\<open>"hello\nworld"\<close>.
\<close>

theorem data_lines_accumulate:
  "f_data (parse_fields sep (split_lines str)) =
     (case field_values sep ''data'' (split_lines str) of
        [] \<Rightarrow> None
      | v # ws \<Rightarrow> Some (v @ concat (map (\<lambda>w. LF # w) ws)))
   \<and> f_id (parse_fields sep (split_lines str)) =
     (if field_values sep ''id'' (split_lines str) = [] then None
      else Some (last (field_values sep ''id'' (split_lines str))))
   \<and> f_event (parse_fields sep (split_lines str)) =
     (if field_values sep ''event'' (split_lines str) = [] then None
      else Some (last (field_values sep ''event'' (split_lines str))))
   \<and> f_retry (parse_fields sep (split_lines str)) =
     (if field_values sep ''retry'' (split_lines str) = [] then None
      else Some (last (field_values sep ''retry'' (split_lines str))))
   \<and> map_option ev_data (parseEventChunk (new_sse me) (''data: hello'' @ [LF] @ ''data: world''))
       = Some (Some (''hello'' @ [LF] @ ''world''))"
proof (intro conjI)
  show "map_option ev_data (parseEventChunk (new_sse me) (''data: hello'' @ [LF] @ ''data: world''))
       = Some (Some (''hello'' @ [LF] @ ''world''))"
    by (simp add: parseEventChunk_def split_lines_def LF_def CR_def parse_fields_def
        process_line_def parse_line_def no_fields_def new_sse_def CustomEvent_def Let_def)
qed (simp_all add: parse_fields_def fold_last_wins fold_data_accumulates no_fields_def)

text \<open>
  C7.  The event constructed for a (non-empty) record has as type the final value of
  the \<^verbatim>\<open>event\<close> field, or \<^verbatim>\<open>"message"\<close> when the field is absent or empty; as data the
  accumulated \<^verbatim>\<open>data\<close> value, or the empty string when no data line was set; as id the
  final \<^verbatim>\<open>id\<close> value, or \<^verbatim>\<open>null\<close> when never set.  The record
  \<^verbatim>\<open>"id: 5\nevent: update\ndata: hello"\<close> yields type \<^verbatim>\<open>"update"\<close>, id \<^verbatim>\<open>"5"\<close>, data
  \<^verbatim>\<open>"hello"\<close>.
\<close>

theorem constructed_event:
  assumes "str \<noteq> []"
  shows "parseEventChunk s str =
      Some \<lparr>ev_type =
               (if field_values (FIELD_SEPARATOR s) ''event'' (split_lines str) = []
                   \<or> last (field_values (FIELD_SEPARATOR s) ''event'' (split_lines str)) = []
                then ''message''
                else last (field_values (FIELD_SEPARATOR s) ''event'' (split_lines str))),
             ev_data =
               Some (case field_values (FIELD_SEPARATOR s) ''data'' (split_lines str) of
                       [] \<Rightarrow> []
                     | v # ws \<Rightarrow> v @ concat (map (\<lambda>w. LF # w) ws)),
             ev_id =
               (if field_values (FIELD_SEPARATOR s) ''id'' (split_lines str) = [] then None
                else Some (last (field_values (FIELD_SEPARATOR s) ''id'' (split_lines str)))),
             ev_readyState = None, ev_source = None, defaultPrevented = False\<rparr>
    \<and> parseEventChunk (new_sse me) (''id: 5'' @ [LF] @ ''event: update'' @ [LF] @ ''data: hello'')
      = Some \<lparr>ev_type = ''update'', ev_data = Some ''hello'', ev_id = Some ''5'',
              ev_readyState = None, ev_source = None, defaultPrevented = False\<rparr>"
proof
  from assms show "parseEventChunk s str =
      Some \<lparr>ev_type =
               (if field_values (FIELD_SEPARATOR s) ''event'' (split_lines str) = []
                   \<or> last (field_values (FIELD_SEPARATOR s) ''event'' (split_lines str)) = []
                then ''message''
                else last (field_values (FIELD_SEPARATOR s) ''event'' (split_lines str))),
             ev_data =
               Some (case field_values (FIELD_SEPARATOR s) ''data'' (split_lines str) of
                       [] \<Rightarrow> []
                     | v # ws \<Rightarrow> v @ concat (map (\<lambda>w. LF # w) ws)),
             ev_id =
               (if field_values (FIELD_SEPARATOR s) ''id'' (split_lines str) = [] then None
                else Some (last (field_values (FIELD_SEPARATOR s) ''id'' (split_lines str)))),
             ev_readyState = None, ev_source = None, defaultPrevented = False\<rparr>"
    by (simp add: parseEventChunk_def parse_fields_def fold_last_wins fold_data_accumulates
        no_fields_def CustomEvent_def Let_def split: list.splits)
next
  show "parseEventChunk (new_sse me) (''id: 5'' @ [LF] @ ''event: update'' @ [LF] @ ''data: hello'')
      = Some \<lparr>ev_type = ''update'', ev_data = Some ''hello'', ev_id = Some ''5'',
              ev_readyState = None, ev_source = None, defaultPrevented = False\<rparr>"
    by (simp add: parseEventChunk_def split_lines_def LF_def CR_def parse_fields_def
        process_line_def parse_line_def no_fields_def new_sse_def CustomEvent_def Let_def)
qed

theorem constructed_event_witness:
  "''event: tick'' @ [LF] @ ''data: a'' @ [LF] @ ''data: b'' \<noteq> []
   \<and> parseEventChunk (new_sse 0) (''event: tick'' @ [LF] @ ''data: a'' @ [LF] @ ''data: b'')
      = Some \<lparr>ev_type = ''tick'', ev_data = Some (''a'' @ [LF] @ ''b''), ev_id = None,
              ev_readyState = None, ev_source = None, defaultPrevented = False\<rparr>"
  using constructed_event [of "''event: tick'' @ [LF] @ ''data: a'' @ [LF] @ ''data: b''" "new_sse 0" 0]
  by (simp add: parseEventChunk_def split_lines_def LF_def CR_def parse_fields_def process_line_def
      parse_line_def no_fields_def new_sse_def CustomEvent_def Let_def)

section \<open>Properties of the chunk assembler\<close>

lemma CR_neq_LF [simp]: "CR \<noteq> LF" "LF \<noteq> CR"
  by (simp_all add: CR_def LF_def)

lemma split_records_from_nonempty [simp]: "split_records_from acc s \<noteq> []"
  by (induction acc s rule: split_records_from.induct) auto

lemma split_records_from_single:
  "length (split_records_from acc s) = 1 \<Longrightarrow> split_records_from acc s = [acc @ s]"
proof (induction acc s rule: split_records_from.induct)
  case (1 acc)
  then show ?case by simp
next
  case (2 acc c cs)
  then show ?case by (auto split: if_splits)
qed

lemma take_eq_length: "take n xs = ys \<Longrightarrow> length ys = n \<Longrightarrow> n \<le> length xs"
  by (drule arg_cong [where f = length]) simp

lemma no_straddling_match:
  assumes more: "length (split_records_from (acc @ [c]) cs) \<noteq> 1"
    and no4: "take 4 (c # cs) \<noteq> [CR, LF, CR, LF]"
    and no2: "take 2 (c # cs) \<noteq> [CR, CR]"
    and no2': "take 2 (c # cs) \<noteq> [LF, LF]"
  shows "take 4 (c # cs @ u) \<noteq> [CR, LF, CR, LF]
       \<and> take 2 (c # cs @ u) \<noteq> [CR, CR]
       \<and> take 2 (c # cs @ u) \<noteq> [LF, LF]"
proof (cases cs)
  case Nil
  with more show ?thesis by simp
next
  case (Cons d ds)
  note cs = Cons
  show ?thesis
  proof (cases ds)
    case Nil
    with cs more no2 no2' show ?thesis by (auto split: if_splits)
  next
    case (Cons e es)
    note ds = Cons
    show ?thesis
    proof (cases es)
      case Nil
      with cs ds more no2 no2' show ?thesis by (auto split: if_splits)
    next
      case (Cons f fs)
      with cs ds no4 no2 no2' show ?thesis by simp
    qed
  qed
qed

text \<open>One step of the scan, by the delimiter found at the front of the rest.\<close>

lemma split_step_crlf:
  "take 4 (c # cs) = [CR, LF, CR, LF] \<Longrightarrow>
   split_records_from acc (c # cs) = acc # [CR, LF, CR, LF] # split_records_from [] (drop 3 cs)"
  by (simp only: split_records_from.simps if_True simp_thms)

lemma split_step_crcr:
  "take 4 (c # cs) \<noteq> [CR, LF, CR, LF] \<Longrightarrow> take 2 (c # cs) = [CR, CR] \<Longrightarrow>
   split_records_from acc (c # cs) = acc # [CR, CR] # split_records_from [] (drop 1 cs)"
  by (simp only: split_records_from.simps if_True if_False simp_thms)

lemma split_step_lflf:
  "take 4 (c # cs) \<noteq> [CR, LF, CR, LF] \<Longrightarrow> take 2 (c # cs) \<noteq> [CR, CR] \<Longrightarrow>
   take 2 (c # cs) = [LF, LF] \<Longrightarrow>
   split_records_from acc (c # cs) = acc # [LF, LF] # split_records_from [] (drop 1 cs)"
  by (simp only: split_records_from.simps if_True if_False simp_thms)

lemma split_step_none:
  "take 4 (c # cs) \<noteq> [CR, LF, CR, LF] \<Longrightarrow> take 2 (c # cs) \<noteq> [CR, CR] \<Longrightarrow>
   take 2 (c # cs) \<noteq> [LF, LF] \<Longrightarrow>
   split_records_from acc (c # cs) = split_records_from (acc @ [c]) cs"
  by (simp only: split_records_from.simps if_False)

text \<open>
  After a delimiter the scan goes on with an empty piece; what it yields on the rest
  extended by \<open>u\<close> follows from the induction hypothesis, or directly when the rest holds
  no delimiter.
\<close>

lemma split_rest_append:
  assumes IH: "length (split_records_from [] r) \<noteq> 1 \<Longrightarrow>
      split_records_from [] (r @ u) =
        butlast (split_records_from [] r) @ split_records_from [] (last (split_records_from [] r) @ u)"
  shows "acc # d # split_records_from [] (r @ u) =
      butlast (acc # d # split_records_from [] r)
      @ split_records_from [] (last (acc # d # split_records_from [] r) @ u)"
proof (cases "length (split_records_from [] r) = 1")
  case True
  then have "split_records_from [] r = [r]"
    using split_records_from_single [of "[]" r] by simp
  then show ?thesis by simp
next
  case False
  then show ?thesis using IH by simp
qed

lemma split_records_from_append:
  "length (split_records_from acc s) \<noteq> 1 \<Longrightarrow>
   split_records_from acc (s @ u) =
     butlast (split_records_from acc s) @ split_records_from [] (last (split_records_from acc s) @ u)"
proof (induction acc s rule: split_records_from.induct)
  case (1 acc)
  then show ?case by simp
next
  case (2 acc c cs)
  consider (a) "take 4 (c # cs) = [CR, LF, CR, LF]"
    | (b) "take 4 (c # cs) \<noteq> [CR, LF, CR, LF]" "take 2 (c # cs) = [CR, CR]"
    | (c) "take 4 (c # cs) \<noteq> [CR, LF, CR, LF]" "take 2 (c # cs) \<noteq> [CR, CR]"
          "take 2 (c # cs) = [LF, LF]"
    | (d) "take 4 (c # cs) \<noteq> [CR, LF, CR, LF]" "take 2 (c # cs) \<noteq> [CR, CR]"
          "take 2 (c # cs) \<noteq> [LF, LF]"
    by blast
  then show ?case
  proof cases
    case a
    then have "take 3 cs = [LF, CR, LF]" by simp
    then have len: "3 \<le> length cs" by (rule take_eq_length) simp
    with a have ext: "take 4 (c # cs @ u) = [CR, LF, CR, LF]" "drop 3 (cs @ u) = drop 3 cs @ u"
      by simp_all
    have "split_records_from acc ((c # cs) @ u) =
        acc # [CR, LF, CR, LF] # split_records_from [] (drop 3 cs @ u)"
      using split_step_crlf [OF ext(1)] ext(2) by simp
    also have "\<dots> = butlast (acc # [CR, LF, CR, LF] # split_records_from [] (drop 3 cs))
        @ split_records_from [] (last (acc # [CR, LF, CR, LF] # split_records_from [] (drop 3 cs)) @ u)"
      by (rule split_rest_append) (rule "2.IH"(1) [OF a])
    finally show ?thesis by (simp only: split_step_crlf [OF a])
  next
    case b
    then have "take 1 cs = [CR]" by simp
    then have len: "1 \<le> length cs" by (rule take_eq_length) simp
    with b have ext: "take 4 (c # cs @ u) \<noteq> [CR, LF, CR, LF]" "take 2 (c # cs @ u) = [CR, CR]"
      "drop 1 (cs @ u) = drop 1 cs @ u"
      by (cases cs; simp)+
    have "split_records_from acc ((c # cs) @ u) =
        acc # [CR, CR] # split_records_from [] (drop 1 cs @ u)"
      using split_step_crcr [OF ext(1,2)] ext(3) by simp
    also have "\<dots> = butlast (acc # [CR, CR] # split_records_from [] (drop 1 cs))
        @ split_records_from [] (last (acc # [CR, CR] # split_records_from [] (drop 1 cs)) @ u)"
      by (rule split_rest_append) (rule "2.IH"(2) [OF b])
    finally show ?thesis by (simp only: split_step_crcr [OF b])
  next
    case c
    then have "take 1 cs = [LF]" by simp
    then have len: "1 \<le> length cs" by (rule take_eq_length) simp
    with c have ext: "take 4 (c # cs @ u) \<noteq> [CR, LF, CR, LF]" "take 2 (c # cs @ u) \<noteq> [CR, CR]"
      "take 2 (c # cs @ u) = [LF, LF]" "drop 1 (cs @ u) = drop 1 cs @ u"
      by (cases cs; simp)+
    have "split_records_from acc ((c # cs) @ u) =
        acc # [LF, LF] # split_records_from [] (drop 1 cs @ u)"
      using split_step_lflf [OF ext(1,2,3)] ext(4) by simp
    also have "\<dots> = butlast (acc # [LF, LF] # split_records_from [] (drop 1 cs))
        @ split_records_from [] (last (acc # [LF, LF] # split_records_from [] (drop 1 cs)) @ u)"
      by (rule split_rest_append) (rule "2.IH"(3) [OF c])
    finally show ?thesis by (simp only: split_step_lflf [OF c])
  next
    case d
    have same: "split_records_from acc (c # cs) = split_records_from (acc @ [c]) cs"
      using d by (rule split_step_none)
    with "2.prems" have more: "length (split_records_from (acc @ [c]) cs) \<noteq> 1" by simp
    from no_straddling_match [OF more d, of u]
    have ext: "take 4 (c # cs @ u) \<noteq> [CR, LF, CR, LF]" "take 2 (c # cs @ u) \<noteq> [CR, CR]"
      "take 2 (c # cs @ u) \<noteq> [LF, LF]" by simp_all
    have "split_records_from acc ((c # cs) @ u) = split_records_from (acc @ [c]) (cs @ u)"
      using split_step_none [OF ext] by simp
    also have "\<dots> = butlast (split_records_from (acc @ [c]) cs)
        @ split_records_from [] (last (split_records_from (acc @ [c]) cs) @ u)"
      using "2.IH"(4) [OF d more] .
    finally show ?thesis by (simp only: same)
  qed
qed

lemma split_records_append:
  "split_records (t @ u) = butlast (split_records t) @ split_records (last (split_records t) @ u)"
proof (cases "length (split_records t) = 1")
  case True
  then have "split_records t = [t]"
    using split_records_from_single [of "[]" t] by (simp add: split_records_def)
  then show ?thesis by simp
next
  case False
  then show ?thesis
    using split_records_from_append [of "[]" t u] by (simp add: split_records_def)
qed


section \<open>Properties of the connection state machine\<close>

lemma then_do_simps [simp]:
  "then_do (s, tr, Some err) f = (s, tr, Some err)"
  "then_do (s, tr, None) f = (case f s of (s', tr', err') \<Rightarrow> (s', tr @ tr', err'))"
  by (simp_all add: then_do_def)

lemma dispatchEvent_cong:
  "self s' = self s \<Longrightarrow> handlers s' = handlers s \<Longrightarrow> listeners s' = listeners s \<Longrightarrow>
   dispatchEvent env s' e = dispatchEvent env s e"
  by (simp add: dispatchEvent_def dispatch_listeners_def listeners_at_def Let_def
      split: option.splits)

lemma dispatch_state [simp]: "fst (dispatch env s e) = s"
  by (simp add: dispatch_def split: option.splits prod.splits)

lemma dispatch_emit: "dispatch env s e = (s, emit env s e, snd (snd (dispatch env s e)))"
  by (simp add: emit_def prod_eq_iff)

lemma emit_None [simp]: "emit env s None = []"
  by (simp add: emit_def dispatch_def)

lemma emit_Some:
  "emit env s (Some ev) =
     [\<lparr>d_event = ev, d_state = readyState s, d_calls = snd (snd (dispatchEvent env s (Some ev))),
       d_result = fst (dispatchEvent env s (Some ev))\<rparr>]"
  by (simp add: emit_def dispatch_def split: prod.splits)

lemma emit_cong:
  "self s' = self s \<Longrightarrow> handlers s' = handlers s \<Longrightarrow> listeners s' = listeners s \<Longrightarrow>
   readyState s' = readyState s \<Longrightarrow> emit env s' e = emit env s e"
  by (cases e) (simp_all add: emit_Some dispatchEvent_cong [of s' s])

text \<open>\<^verbatim>\<open>dispatchEvent\<close> throws only on an event whose type names an inherited property.\<close>

lemma dispatchEvent_plain:
  "ev_type ev \<notin> set object_prototype_names \<Longrightarrow>
   \<exists>r. fst (dispatchEvent env s (Some ev)) = Inr r"
  by (auto simp: dispatchEvent_def dispatch_listeners_def listeners_at_def Let_def
      split: option.splits prod.splits)

lemma dispatch_plain:
  "ev_type ev \<notin> set object_prototype_names \<Longrightarrow>
   dispatch env s (Some ev) = (s, emit env s (Some ev), None)"
  using dispatchEvent_plain [of ev env s]
  by (auto simp: dispatch_def emit_def split: prod.splits)

lemma dispatch_None [simp]: "dispatch env s None = (s, [], None)"
  by (simp add: dispatch_def)

lemma fixed_types_plain [simp]:
  "''open'' \<notin> set object_prototype_names"
  "''readystatechange'' \<notin> set object_prototype_names"
  "''error'' \<notin> set object_prototype_names"
  "''abort'' \<notin> set object_prototype_names"
  "''message'' \<notin> set object_prototype_names"
  by (simp_all add: object_prototype_names_def)

lemma setReadyState_eq:
  "setReadyState env s st =
     (s\<lparr>readyState := st\<rparr>,
      emit env (s\<lparr>readyState := st\<rparr>)
        (Some ((CustomEvent ''readystatechange'')\<lparr>ev_readyState := Some st\<rparr>)),
      None)"
  by (simp add: setReadyState_def Let_def dispatch_plain CustomEvent_def)

lemma forward_part_state [simp]: "fst (forward_part env s part) = s"
  by (simp add: forward_part_def)

lemma forward_part_emit:
  "forward_part env s part = (s, emit_part env s part, snd (snd (forward_part env s part)))"
  by (simp add: emit_part_def prod_eq_iff)

lemma forward_part_plain:
  "trim part \<noteq> [] \<longrightarrow> plain_record s part \<Longrightarrow>
   forward_part env s part = (s, emit_part env s part, None)"
  by (auto simp: forward_part_def emit_part_def plain_record_def dispatch_plain
      split: option.splits)

lemma emit_part_cong:
  "self s' = self s \<Longrightarrow> handlers s' = handlers s \<Longrightarrow> listeners s' = listeners s \<Longrightarrow>
   readyState s' = readyState s \<Longrightarrow> FIELD_SEPARATOR s' = FIELD_SEPARATOR s \<Longrightarrow>
   emit_part env s' part = emit_part env s part"
  using emit_cong [of s' s env]
  by (simp add: emit_part_def forward_part_def parseEventChunk_def emit_def)

lemma forward_parts_state [simp]: "fst (forward_parts env s parts) = s"
proof (induction parts)
  case Nil
  then show ?case by simp
next
  case (Cons p ps)
  obtain tr err where p: "forward_part env s p = (s, tr, err)"
    using forward_part_emit by blast
  obtain tr' err' where ps: "forward_parts env s ps = (s, tr', err')"
    using Cons.IH by (metis fst_conv prod_cases3)
  show ?case by (cases err) (simp_all add: p ps)
qed

lemma forward_parts_plain:
  "\<forall>p \<in> set parts. trim p \<noteq> [] \<longrightarrow> plain_record s p \<Longrightarrow>
   forward_parts env s parts = (s, concat (map (emit_part env s) parts), None)"
  by (induction parts) (simp_all add: forward_part_plain)

lemma emit_frame [simp]:
  "emit env (s\<lparr>xhr := x\<rparr>) = emit env s"
  "emit env (s\<lparr>progress := n\<rparr>) = emit env s"
  "emit env (s\<lparr>chunk := c\<rparr>) = emit env s"
  "emit env (s\<lparr>xhr := x, readyState := r\<rparr>) = emit env (s\<lparr>readyState := r\<rparr>)"
  by (rule ext, rule emit_cong, simp_all)+

lemma emit_part_frame [simp]:
  "emit_part env (s\<lparr>xhr := x\<rparr>) = emit_part env s"
  "emit_part env (s\<lparr>progress := n\<rparr>) = emit_part env s"
  "emit_part env (s\<lparr>chunk := c\<rparr>) = emit_part env s"
  "emit_part env (s\<lparr>xhr := x, readyState := r\<rparr>) = emit_part env (s\<lparr>readyState := r\<rparr>)"
  by (rule ext, rule emit_part_cong, simp_all)+

lemma parseEventChunk_frame [simp]:
  "parseEventChunk (s\<lparr>xhr := x\<rparr>) = parseEventChunk s"
  "parseEventChunk (s\<lparr>progress := n\<rparr>) = parseEventChunk s"
  "parseEventChunk (s\<lparr>chunk := c\<rparr>) = parseEventChunk s"
  "parseEventChunk (s\<lparr>readyState := r\<rparr>) = parseEventChunk s"
  by (rule ext, simp add: parseEventChunk_def)+

lemma plain_record_frame [simp]:
  "plain_record (s\<lparr>xhr := x\<rparr>) = plain_record s"
  "plain_record (s\<lparr>progress := n\<rparr>) = plain_record s"
  "plain_record (s\<lparr>chunk := c\<rparr>) = plain_record s"
  "plain_record (s\<lparr>readyState := r\<rparr>) = plain_record s"
  by (rule ext, simp add: plain_record_def)+

lemma onStreamProgress_success:
  assumes "xhr s = Some x" "status x = 200" "readyState s \<noteq> CONNECTING"
    and "\<forall>p \<in> set (butlast (split_records (chunk s @ drop (progress s) (responseText x)))).
           trim p \<noteq> [] \<longrightarrow> plain_record s p"
  shows "onStreamProgress env s e =
     (s\<lparr>progress := progress s + length (drop (progress s) (responseText x)),
        chunk := last (split_records (chunk s @ drop (progress s) (responseText x)))\<rparr>,
      concat (map (emit_part env s)
        (butlast (split_records (chunk s @ drop (progress s) (responseText x))))),
      None)"
  using assms by (simp add: onStreamProgress_def Let_def forward_parts_plain)

lemma onStreamProgress_first:
  assumes "xhr s = Some x" "status x = 200" "readyState s = CONNECTING"
    and "\<forall>p \<in> set (butlast (split_records (chunk s @ drop (progress s) (responseText x)))).
           trim p \<noteq> [] \<longrightarrow> plain_record s p"
  shows "onStreamProgress env s e =
     (s\<lparr>readyState := OPEN,
        progress := progress s + length (drop (progress s) (responseText x)),
        chunk := last (split_records (chunk s @ drop (progress s) (responseText x)))\<rparr>,
      emit env s (Some (CustomEvent ''open''))
      @ emit env (s\<lparr>readyState := OPEN\<rparr>)
          (Some ((CustomEvent ''readystatechange'')\<lparr>ev_readyState := Some OPEN\<rparr>))
      @ concat (map (emit_part env (s\<lparr>readyState := OPEN\<rparr>))
        (butlast (split_records (chunk s @ drop (progress s) (responseText x))))),
      None)"
  using assms
  by (simp add: onStreamProgress_def Let_def forward_parts_plain dispatch_plain setReadyState_eq
      CustomEvent_def)

lemma split_records_nonempty [simp]: "split_records t \<noteq> []"
  by (simp add: split_records_def)

lemma split_records_append_butlast:
  "butlast (split_records (t @ u)) =
     butlast (split_records t) @ butlast (split_records (last (split_records t) @ u))"
  by (subst split_records_append) (simp add: butlast_append)

lemma split_records_append_last:
  "last (split_records (t @ u)) = last (split_records (last (split_records t) @ u))"
  by (subst split_records_append) simp

lemma deliver_Progress:
  "deliver env s (Progress x) =
     onStreamProgress env (s\<lparr>xhr := map_option (\<lambda>_. x) (xhr s)\<rparr>) \<lparr>currentTarget = x\<rparr>"
  by (simp add: deliver_def)

lemma progress_run:
  assumes "xhr s \<noteq> None" "readyState s \<noteq> CONNECTING"
    and "progress s = length t" "chunk s = last (split_records t)"
    and "\<forall>x \<in> set xs. status x = 200" "cumulative (t # map responseText xs)"
    and "\<forall>p \<in> set (butlast (split_records (last (t # map responseText xs)))).
           trim p \<noteq> [] \<longrightarrow> plain_record s p"
  shows "\<exists>s' new. deliver_all env s (map Progress xs) = (s', concat (map (emit_part env s) new))
     \<and> butlast (split_records (last (t # map responseText xs))) = butlast (split_records t) @ new
     \<and> chunk s' = last (split_records (last (t # map responseText xs)))
     \<and> progress s' = length (last (t # map responseText xs))
     \<and> xhr s' \<noteq> None \<and> readyState s' = readyState s \<and> self s' = self s
     \<and> handlers s' = handlers s \<and> listeners s' = listeners s
     \<and> FIELD_SEPARATOR s' = FIELD_SEPARATOR s"
  using assms
proof (induction xs arbitrary: s t)
  case Nil
  then show ?case by simp
next
  case (Cons x xs)
  define u where "u = drop (length t) (responseText x)"
  define s0 where "s0 = s\<lparr>xhr := Some x\<rparr>"
  define s1 where "s1 = s0\<lparr>progress := progress s0 + length u,
      chunk := last (split_records (chunk s0 @ u))\<rparr>"
  let ?T = "last (responseText x # map responseText xs)"
  from Cons.prems(6) have pre: "take (length t) (responseText x) = t"
    and rest: "cumulative (responseText x # map responseText xs)" by simp_all
  from pre have tx: "responseText x = t @ u"
    unfolding u_def by (metis append_take_drop_id)
  from Cons.prems(1) have s0: "s\<lparr>xhr := map_option (\<lambda>_. x) (xhr s)\<rparr> = s0"
    by (auto simp: s0_def)
  have chunk0: "chunk s0 = last (split_records t)" using Cons.prems(4) by (simp add: s0_def)
  have plain: "\<forall>p \<in> set (butlast (split_records ?T)). trim p \<noteq> [] \<longrightarrow> plain_record s p"
    using Cons.prems(7) by simp
  have fp: "emit_part env s1 = emit_part env s" "emit_part env s0 = emit_part env s"
    by (simp_all add: s1_def s0_def)
  have pr: "plain_record s1 = plain_record s" "plain_record s0 = plain_record s"
    by (simp_all add: s1_def s0_def)
  have "\<exists>s' new. deliver_all env s1 (map Progress xs) = (s', concat (map (emit_part env s1) new))
     \<and> butlast (split_records ?T) = butlast (split_records (responseText x)) @ new
     \<and> chunk s' = last (split_records ?T)
     \<and> progress s' = length ?T
     \<and> xhr s' \<noteq> None \<and> readyState s' = readyState s1 \<and> self s' = self s1
     \<and> handlers s' = handlers s1 \<and> listeners s' = listeners s1
     \<and> FIELD_SEPARATOR s' = FIELD_SEPARATOR s1"
  proof (rule Cons.IH)
    show "xhr s1 \<noteq> None" by (simp add: s1_def s0_def)
    show "readyState s1 \<noteq> CONNECTING" using Cons.prems(2) by (simp add: s1_def s0_def)
    show "progress s1 = length (responseText x)"
      using Cons.prems(3) by (simp add: s1_def s0_def tx)
    show "chunk s1 = last (split_records (responseText x))"
      using Cons.prems(4) by (simp add: s1_def s0_def tx split_records_append_last [of t u])
    show "\<forall>x \<in> set xs. status x = 200" using Cons.prems(5) by simp
    show "cumulative (responseText x # map responseText xs)" by (rule rest)
    show "\<forall>p \<in> set (butlast (split_records ?T)). trim p \<noteq> [] \<longrightarrow> plain_record s1 p"
      using plain by (simp add: pr)
  qed
  then obtain s' new where run: "deliver_all env s1 (map Progress xs) = (s', concat (map (emit_part env s1) new))"
    and parts: "butlast (split_records ?T) = butlast (split_records (responseText x)) @ new"
    and frame: "chunk s' = last (split_records ?T)"
      "progress s' = length ?T"
      "xhr s' \<noteq> None" "readyState s' = readyState s1" "self s' = self s1"
      "handlers s' = handlers s1" "listeners s' = listeners s1"
      "FIELD_SEPARATOR s' = FIELD_SEPARATOR s1"
    by blast
  let ?new1 = "butlast (split_records (chunk s0 @ u))"
  have whole: "butlast (split_records ?T) = butlast (split_records t) @ (?new1 @ new)"
    using parts by (simp add: tx chunk0 split_records_append_butlast [of t u])
  have plain1: "\<forall>p \<in> set ?new1. trim p \<noteq> [] \<longrightarrow> plain_record s0 p"
    using plain unfolding whole pr by auto
  have step: "deliver env s (Progress x) = (s1, concat (map (emit_part env s0) ?new1), None)"
    unfolding deliver_Progress s0 s1_def u_def
    using Cons.prems(2,3,5) plain1 [unfolded u_def]
    by (subst onStreamProgress_success [where x = x]) (simp_all add: s0_def)
  have "deliver_all env s (map Progress (x # xs)) =
      (s', concat (map (emit_part env s) (?new1 @ new)))"
    using step run by (simp add: fp)
  moreover have "last (t # map responseText (x # xs)) = ?T"
    by simp
  ultimately show ?case
    using frame whole by (intro exI [of _ s'] exI [of _ "?new1 @ new"]) (simp add: s1_def s0_def)
qed

lemma record_pieces_Nil [simp]: "record_pieces [] tail = [tail]"
  by (simp add: record_pieces_def)

lemma record_pieces_Cons [simp]:
  "record_pieces ((r, d) # rds) tail = r # d # record_pieces rds tail"
  by (simp add: record_pieces_def)

lemma record_pieces_nonempty [simp]: "record_pieces rds tail \<noteq> []"
  by (simp add: record_pieces_def)

lemma record_pieces_inject:
  "record_pieces rds tail = record_pieces rds' tail' \<Longrightarrow> rds = rds' \<and> tail = tail'"
proof (induction rds arbitrary: rds')
  case Nil
  then show ?case by (cases rds') auto
next
  case (Cons p rds)
  then show ?case by (cases rds'; cases p) auto
qed

lemma butlast_record_pieces [simp]:
  "butlast (record_pieces rds tail) = concat (map (\<lambda>(r, d). [r, d]) rds)"
  by (simp add: record_pieces_def)

lemma last_record_pieces [simp]: "last (record_pieces rds tail) = tail"
  by (simp add: record_pieces_def)

lemma split_records_from_shape:
  "\<exists>rds tail. split_records_from acc s = record_pieces rds tail
     \<and> (\<forall>(r, d) \<in> set rds. delimiter d)"
proof (induction acc s rule: split_records_from.induct)
  case (1 acc)
  have "split_records_from acc [] = record_pieces [] acc" by simp
  then show ?case by fastforce
next
  case (2 acc c cs)
  consider (a) "take 4 (c # cs) = [CR, LF, CR, LF]"
    | (b) "take 4 (c # cs) \<noteq> [CR, LF, CR, LF]" "take 2 (c # cs) = [CR, CR]"
    | (c) "take 4 (c # cs) \<noteq> [CR, LF, CR, LF]" "take 2 (c # cs) \<noteq> [CR, CR]"
          "take 2 (c # cs) = [LF, LF]"
    | (d) "take 4 (c # cs) \<noteq> [CR, LF, CR, LF]" "take 2 (c # cs) \<noteq> [CR, CR]"
          "take 2 (c # cs) \<noteq> [LF, LF]"
    by blast
  then show ?case
  proof cases
    case a
    from "2.IH"(1) [OF a] obtain rds tail where
      "split_records_from [] (drop 3 cs) = record_pieces rds tail"
      "\<forall>(r, d) \<in> set rds. delimiter d" by blast
    then have "split_records_from acc (c # cs) = record_pieces ((acc, [CR, LF, CR, LF]) # rds) tail
       \<and> (\<forall>(r, d) \<in> set ((acc, [CR, LF, CR, LF]) # rds). delimiter d)"
      by (simp add: split_step_crlf [OF a] delimiter_def del: split_records_from.simps)
    then show ?thesis by blast
  next
    case b
    from "2.IH"(2) [OF b] obtain rds tail where
      "split_records_from [] (drop 1 cs) = record_pieces rds tail"
      "\<forall>(r, d) \<in> set rds. delimiter d" by blast
    then have "split_records_from acc (c # cs) = record_pieces ((acc, [CR, CR]) # rds) tail
       \<and> (\<forall>(r, d) \<in> set ((acc, [CR, CR]) # rds). delimiter d)"
      by (simp add: split_step_crcr [OF b] delimiter_def del: split_records_from.simps)
    then show ?thesis by blast
  next
    case c
    from "2.IH"(3) [OF c] obtain rds tail where
      "split_records_from [] (drop 1 cs) = record_pieces rds tail"
      "\<forall>(r, d) \<in> set rds. delimiter d" by blast
    then have "split_records_from acc (c # cs) = record_pieces ((acc, [LF, LF]) # rds) tail
       \<and> (\<forall>(r, d) \<in> set ((acc, [LF, LF]) # rds). delimiter d)"
      by (simp add: split_step_lflf [OF c] delimiter_def del: split_records_from.simps)
    then show ?thesis by blast
  next
    case d
    from "2.IH"(4) [OF d] show ?thesis by (simp only: split_step_none [OF d])
  qed
qed

lemma trim_delimiter:
  "delimiter d \<Longrightarrow> trim d = []"
  by (auto simp: delimiter_def trim_def is_space_def CR_def LF_def)

lemma split_records_delimiters:
  assumes "split_records str = record_pieces rds tail"
  shows "\<forall>(r, d) \<in> set rds. trim d = []"
proof -
  obtain rds' tail' where shape: "split_records str = record_pieces rds' tail'"
    and delims: "\<forall>(r, d) \<in> set rds'. delimiter d"
    using split_records_from_shape [of "[]" str] by (auto simp: split_records_def)
  from assms shape have "rds = rds'" using record_pieces_inject by metis
  with delims show ?thesis by (auto dest: trim_delimiter)
qed

lemma trim_Nil [simp]: "trim [] = []"
  by (simp add: trim_def)

lemma emit_record:
  "trim r \<noteq> [] \<Longrightarrow> map d_event (emit_part env s r) = [the (parseEventChunk s r)]"
  by (auto simp: emit_part_def forward_part_def emit_def [symmetric] emit_Some
      parseEventChunk_def Let_def)

lemma emit_blank: "trim d = [] \<Longrightarrow> emit_part env s d = []"
  by (simp add: emit_part_def forward_part_def)

lemma emit_records:
  assumes "\<forall>(r, d) \<in> set rds. trim r \<noteq> []" "\<forall>(r, d) \<in> set rds. trim d = []"
  shows "map d_event (concat (map (emit_part env s) (concat (map (\<lambda>(r, d). [r, d]) rds))))
       = map (\<lambda>(r, d). the (parseEventChunk s r)) rds"
  using assms by (induction rds) (auto simp: emit_record emit_blank)

lemma deliver_Load:
  "deliver env s (Load x) =
     onStreamLoaded env (s\<lparr>xhr := map_option (\<lambda>_. x) (xhr s)\<rparr>) \<lparr>currentTarget = x\<rparr>"
  by (simp add: deliver_def)

lemma split_records_last_single:
  "split_records (last (split_records t)) = [last (split_records t)]"
proof -
  have "butlast (split_records t) @ split_records (last (split_records t)) = split_records t"
    using split_records_append [of t "[]"] by simp
  also have "\<dots> = butlast (split_records t) @ [last (split_records t)]"
    by simp
  finally show ?thesis by (simp only: same_append_eq)
qed

lemma cumulative_from_empty: "cumulative ([] # ts) = cumulative ts"
  by (cases ts) simp_all

lemma split_records_Nil [simp]: "split_records [] = [[]]"
  by (simp add: split_records_def)

lemma OPEN_not_CONNECTING [simp]: "OPEN \<noteq> CONNECTING"
  by (simp add: OPEN_def CONNECTING_def)

lemma streaming_run:
  assumes live: "xhr s \<noteq> None" and fresh: "progress s = 0" "chunk s = []"
    and ok: "\<forall>x \<in> set xs. status x = 200"
    and frag: "xs \<noteq> []" "cumulative (map responseText xs)"
    and plain: "\<forall>p \<in> set (butlast (split_records (responseText (last xs)))).
           trim p \<noteq> [] \<longrightarrow> plain_record s p"
  shows "\<exists>s'. deliver_all env s (map Progress xs) =
        (s', (if readyState s = CONNECTING
              then emit env s (Some (CustomEvent ''open''))
                   @ emit env (s\<lparr>readyState := OPEN\<rparr>)
                       (Some ((CustomEvent ''readystatechange'')\<lparr>ev_readyState := Some OPEN\<rparr>))
              else [])
             @ concat (map (emit_part env (if readyState s = CONNECTING
                                           then s\<lparr>readyState := OPEN\<rparr> else s))
                 (butlast (split_records (responseText (last xs))))))
     \<and> chunk s' = last (split_records (responseText (last xs)))
     \<and> progress s' = length (responseText (last xs))
     \<and> xhr s' \<noteq> None
     \<and> readyState s' = (if readyState s = CONNECTING then OPEN else readyState s)
     \<and> self s' = self s \<and> handlers s' = handlers s \<and> listeners s' = listeners s
     \<and> FIELD_SEPARATOR s' = FIELD_SEPARATOR s"
proof (cases "readyState s = CONNECTING")
  case False
  have last: "last ([] # map responseText xs) = responseText (last xs)"
    using frag(1) by (simp add: last_map)
  from progress_run [of s "[]" xs env] live False fresh ok frag(2) plain
  obtain s' new where "deliver_all env s (map Progress xs) = (s', concat (map (emit_part env s) new))"
    "butlast (split_records (last ([] # map responseText xs))) = butlast (split_records []) @ new"
    "chunk s' = last (split_records (last ([] # map responseText xs)))"
    "progress s' = length (last ([] # map responseText xs))"
    "xhr s' \<noteq> None" "readyState s' = readyState s" "self s' = self s"
    "handlers s' = handlers s" "listeners s' = listeners s"
    "FIELD_SEPARATOR s' = FIELD_SEPARATOR s"
    unfolding last by (auto simp: cumulative_from_empty)
  note run = this [unfolded last]
  from run False show ?thesis by simp
next
  case True
  from frag(1) obtain x xs' where xs: "xs = x # xs'" by (cases xs) auto
  define s0 where "s0 = s\<lparr>xhr := Some x\<rparr>"
  define s1 where "s1 = s0\<lparr>readyState := OPEN, progress := length (responseText x),
      chunk := last (split_records (responseText x))\<rparr>"
  have last: "last (responseText x # map responseText xs') = responseText (last xs)"
    using xs by (simp add: last_map)
  from live have s0: "s\<lparr>xhr := map_option (\<lambda>_. x) (xhr s)\<rparr> = s0"
    by (auto simp: s0_def)
  have fp: "emit_part env s1 = emit_part env (s\<lparr>readyState := OPEN\<rparr>)"
    by (simp add: s1_def s0_def)
  have pr: "plain_record s1 = plain_record s" "plain_record s0 = plain_record s"
    by (simp_all add: s1_def s0_def)
  have "\<exists>s' new. deliver_all env s1 (map Progress xs') = (s', concat (map (emit_part env s1) new))
     \<and> butlast (split_records (last (responseText x # map responseText xs')))
         = butlast (split_records (responseText x)) @ new
     \<and> chunk s' = last (split_records (last (responseText x # map responseText xs')))
     \<and> progress s' = length (last (responseText x # map responseText xs'))
     \<and> xhr s' \<noteq> None \<and> readyState s' = readyState s1 \<and> self s' = self s1
     \<and> handlers s' = handlers s1 \<and> listeners s' = listeners s1
     \<and> FIELD_SEPARATOR s' = FIELD_SEPARATOR s1"
  proof (rule progress_run)
    show "xhr s1 \<noteq> None" by (simp add: s1_def s0_def)
    show "readyState s1 \<noteq> CONNECTING" by (simp add: s1_def)
    show "progress s1 = length (responseText x)" by (simp add: s1_def)
    show "chunk s1 = last (split_records (responseText x))" by (simp add: s1_def)
    show "\<forall>x \<in> set xs'. status x = 200" using ok xs by simp
    show "cumulative (responseText x # map responseText xs')" using frag(2) xs by simp
    show "\<forall>p \<in> set (butlast (split_records (last (responseText x # map responseText xs')))).
           trim p \<noteq> [] \<longrightarrow> plain_record s1 p"
      using plain unfolding last pr .
  qed
  then obtain s' new where run: "deliver_all env s1 (map Progress xs') = (s', concat (map (emit_part env s1) new))"
    and parts: "butlast (split_records (last (responseText x # map responseText xs')))
         = butlast (split_records (responseText x)) @ new"
    and frame: "chunk s' = last (split_records (last (responseText x # map responseText xs')))"
      "progress s' = length (last (responseText x # map responseText xs'))"
      "xhr s' \<noteq> None" "readyState s' = readyState s1" "self s' = self s1"
      "handlers s' = handlers s1" "listeners s' = listeners s1"
      "FIELD_SEPARATOR s' = FIELD_SEPARATOR s1"
    by blast
  note parts' = parts [unfolded last] and frame' = frame [unfolded last]
  have plain1: "\<forall>p \<in> set (butlast (split_records (responseText x))).
      trim p \<noteq> [] \<longrightarrow> plain_record s0 p"
    using plain unfolding parts' pr by auto
  have step: "deliver env s (Progress x) =
      (s1, emit env s (Some (CustomEvent ''open''))
           @ emit env (s\<lparr>readyState := OPEN\<rparr>)
               (Some ((CustomEvent ''readystatechange'')\<lparr>ev_readyState := Some OPEN\<rparr>))
           @ concat (map (emit_part env (s\<lparr>readyState := OPEN\<rparr>))
               (butlast (split_records (responseText x)))), None)"
    unfolding deliver_Progress s0
    using True fresh ok xs plain1
    by (subst onStreamProgress_first [where x = x]) (simp_all add: s0_def s1_def)
  have whole: "deliver_all env s (map Progress xs) =
      (s', emit env s (Some (CustomEvent ''open''))
           @ emit env (s\<lparr>readyState := OPEN\<rparr>)
               (Some ((CustomEvent ''readystatechange'')\<lparr>ev_readyState := Some OPEN\<rparr>))
           @ concat (map (emit_part env (s\<lparr>readyState := OPEN\<rparr>))
               (butlast (split_records (responseText x)) @ new)))"
    using step run by (simp add: xs fp)
  from whole parts' frame' True show ?thesis
    by (simp add: s1_def s0_def)
qed

lemma load_after_stream:
  assumes "xhr s \<noteq> None" "status x = 200" "readyState s \<noteq> CONNECTING"
    and "progress s = length (responseText x)"
    and "chunk s = last (split_records (responseText x))"
    and "plain_record s (chunk s)"
  shows "deliver env s (Load x) =
     (s\<lparr>xhr := Some x, chunk := []\<rparr>, emit env s (parseEventChunk s (chunk s)), None)"
proof -
  from assms(1) have s0: "s\<lparr>xhr := map_option (\<lambda>_. x) (xhr s)\<rparr> = s\<lparr>xhr := Some x\<rparr>"
    by auto
  have "onStreamProgress env (s\<lparr>xhr := Some x\<rparr>) \<lparr>currentTarget = x\<rparr>
      = (s\<lparr>xhr := Some x\<rparr>, [], None)"
    using assms(2-5)
    by (subst onStreamProgress_success [where x = x])
       (simp_all add: split_records_last_single)
  moreover have "dispatch env (s\<lparr>xhr := Some x\<rparr>) (parseEventChunk s (chunk s))
      = (s\<lparr>xhr := Some x\<rparr>, emit env s (parseEventChunk s (chunk s)), None)"
    using assms(6)
    by (cases "parseEventChunk s (chunk s)")
       (simp_all add: plain_record_def dispatch_plain)
  ultimately show ?thesis
    unfolding deliver_Load s0 by (simp add: onStreamLoaded_def)
qed

lemma cumulative_take: "cumulative ts \<Longrightarrow> cumulative (take k ts)"
proof (induction ts arbitrary: k rule: cumulative.induct)
  case 1
  then show ?case by simp
next
  case (2 t)
  then show ?case by (cases k) simp_all
next
  case (3 t u ts)
  show ?case
  proof (cases k)
    case 0
    then show ?thesis by simp
  next
    case (Suc j)
    with "3.prems" "3.IH" [of j] show ?thesis by (cases j) simp_all
  qed
qed

lemma last_take: "0 < k \<Longrightarrow> k \<le> length xs \<Longrightarrow> last (take k xs) = xs ! (k - 1)"
proof -
  assume k: "0 < k" "k \<le> length xs"
  then have "take k xs \<noteq> []" by auto
  then have "last (take k xs) = take k xs ! (length (take k xs) - 1)"
    by (rule last_conv_nth)
  also have "\<dots> = xs ! (k - 1)" using k by simp
  finally show ?thesis .
qed


lemma forward_part_entries:
  "\<forall>d \<in> set (fst (snd (forward_part env s part))). d_state d = readyState s"
  by (cases "parseEventChunk s part")
     (auto simp: forward_part_def dispatch_def split: prod.splits)

lemma forward_parts_result:
  "\<exists>tr err. forward_parts env s parts = (s, tr, err) \<and> (\<forall>d \<in> set tr. d_state d = readyState s)"
proof (induction parts)
  case Nil
  then show ?case by simp
next
  case (Cons p ps)
  obtain tr err where p: "forward_part env s p = (s, tr, err)"
    using forward_part_emit by blast
  with forward_part_entries [of env s p] have tr: "\<forall>d \<in> set tr. d_state d = readyState s"
    by simp
  from Cons.IH obtain tr' err' where ps: "forward_parts env s ps = (s, tr', err')"
    and tr': "\<forall>d \<in> set tr'. d_state d = readyState s" by blast
  show ?case using tr tr' by (cases err) (auto simp: p ps)
qed

text \<open>
  C4.  On a progress notification with success status while the instance is connecting,
  the state becomes \<open>OPEN\<close>; the first event dispatched is \<^verbatim>\<open>"open"\<close>, dispatched while
  the state is still \<open>CONNECTING\<close>, and the next is the \<^verbatim>\<open>"readystatechange"\<close> for
  \<open>OPEN\<close>, dispatched when the state is \<open>OPEN\<close>; the state does not change after that.
\<close>

theorem open_before_transition:
  assumes "xhr s = Some x" "status x = 200" "readyState s = CONNECTING"
  shows "readyState (fst (onStreamProgress env s e)) = OPEN
     \<and> take 2 (map (\<lambda>d. (d_event d, d_state d)) (fst (snd (onStreamProgress env s e)))) =
         [(CustomEvent ''open'', CONNECTING),
          ((CustomEvent ''readystatechange'')\<lparr>ev_readyState := Some OPEN\<rparr>, OPEN)]
     \<and> (\<forall>d \<in> set (drop 2 (fst (snd (onStreamProgress env s e)))). d_state d = OPEN)"
proof -
  let ?data = "drop (progress s) (responseText x)"
  let ?s2 = "s\<lparr>readyState := OPEN, progress := progress s + length ?data\<rparr>"
  obtain tr err where fw: "forward_parts env ?s2 (butlast (split_records (chunk s @ ?data)))
      = (?s2, tr, err)" and tr: "\<forall>d \<in> set tr. d_state d = readyState ?s2"
    using forward_parts_result by blast
  from assms fw tr show ?thesis
    by (cases err)
       (simp_all add: onStreamProgress_def dispatch_plain setReadyState_eq emit_Some
          CustomEvent_def Let_def)
qed

theorem open_before_transition_witness:
  "xhr ((new_sse 0)\<lparr>readyState := CONNECTING,
         xhr := Some \<lparr>status = 200, responseText = ''data: a'', response = ''data: a'',
                      xhr_readyState = 3\<rparr>\<rparr>)
     = Some \<lparr>status = 200, responseText = ''data: a'', response = ''data: a'', xhr_readyState = 3\<rparr>
   \<and> readyState (fst (onStreamProgress (\<lambda>n ev. False)
        ((new_sse 0)\<lparr>readyState := CONNECTING,
           xhr := Some \<lparr>status = 200, responseText = ''data: a'', response = ''data: a'',
                        xhr_readyState = 3\<rparr>\<rparr>)
        \<lparr>currentTarget = \<lparr>status = 200, responseText = ''data: a'', response = ''data: a'',
                          xhr_readyState = 3\<rparr>\<rparr>)) = OPEN
   \<and> map (\<lambda>d. (ev_type (d_event d), d_state d)) (fst (snd (onStreamProgress (\<lambda>n ev. False)
        ((new_sse 0)\<lparr>readyState := CONNECTING,
           xhr := Some \<lparr>status = 200, responseText = ''data: a'', response = ''data: a'',
                        xhr_readyState = 3\<rparr>\<rparr>)
        \<lparr>currentTarget = \<lparr>status = 200, responseText = ''data: a'', response = ''data: a'',
                          xhr_readyState = 3\<rparr>\<rparr>)))
     = [(''open'', CONNECTING), (''readystatechange'', OPEN)]"
  using open_before_transition [where s =
      "(new_sse 0)\<lparr>readyState := CONNECTING,
         xhr := Some \<lparr>status = 200, responseText = ''data: a'', response = ''data: a'',
                      xhr_readyState = 3\<rparr>\<rparr>"
      and x = "\<lparr>status = 200, responseText = ''data: a'', response = ''data: a'', xhr_readyState = 3\<rparr>"
      and env = "\<lambda>n ev. False"
      and e = "\<lparr>currentTarget = \<lparr>status = 200, responseText = ''data: a'', response = ''data: a'',
                          xhr_readyState = 3\<rparr>\<rparr>"]
  by (simp add: new_sse_def onStreamProgress_def setReadyState_def dispatch_def then_do_def
      dispatchEvent_def dispatch_listeners_def listeners_at_def object_prototype_names_def
      split_records_def CustomEvent_def LF_def CR_def CONNECTING_def OPEN_def Let_def)

lemma close_live:
  "xhr s \<noteq> None \<Longrightarrow> readyState s \<noteq> CLOSED \<Longrightarrow>
   close env s = (s\<lparr>xhr := None, readyState := CLOSED\<rparr>,
                  emit env (s\<lparr>readyState := CLOSED\<rparr>)
                    (Some ((CustomEvent ''readystatechange'')\<lparr>ev_readyState := Some CLOSED\<rparr>)),
                  None)"
  by (auto simp: close_def setReadyState_eq)

lemma close_idle: "xhr s = None \<or> readyState s = CLOSED \<Longrightarrow> close env s = (s, [], None)"
  by (auto simp: close_def)

text \<open>Without a transport handle no notification dispatches the \<^verbatim>\<open>"open"\<close> event.\<close>

lemma deliver_without_handle:
  assumes "xhr s = None"
  shows "xhr (fst (deliver env s n)) = None
     \<and> CustomEvent ''open'' \<notin> set (map d_event (fst (snd (deliver env s n))))"
proof (cases n)
  case (Load x)
  from assms have s0: "s\<lparr>xhr := map_option (\<lambda>_. x) (xhr s)\<rparr> = s" by simp
  from assms have prog: "onStreamProgress env s \<lparr>currentTarget = x\<rparr> = (s, [], None)"
    by (simp add: onStreamProgress_def)
  obtain err where d: "dispatch env s (parseEventChunk s (chunk s))
      = (s, emit env s (parseEventChunk s (chunk s)), err)"
    using dispatch_emit by blast
  have "CustomEvent ''open'' \<notin> set (map d_event (emit env s (parseEventChunk s (chunk s))))"
    by (cases "chunk s = []")
       (auto simp: parseEventChunk_def emit_Some CustomEvent_def Let_def)
  with assms Load show ?thesis
    unfolding Load deliver_Load s0
    by (cases err) (simp_all add: onStreamLoaded_def prog d)
qed (use assms in \<open>auto simp: deliver_def onStreamProgress_def checkStreamClosed_def
        onStreamFailure_def onStreamAbort_def close_idle dispatch_plain emit_Some
        CustomEvent_def Let_def\<close>)

lemma deliver_all_without_handle:
  "xhr s = None \<Longrightarrow> CustomEvent ''open'' \<notin> set (map d_event (snd (deliver_all env s ns)))"
proof (induction ns arbitrary: s)
  case Nil
  then show ?case by simp
next
  case (Cons n ns)
  from deliver_without_handle [OF Cons.prems, of env n]
  have "xhr (fst (deliver env s n)) = None"
    "CustomEvent ''open'' \<notin> set (map d_event (fst (snd (deliver env s n))))" by simp_all
  with Cons.IH [of "fst (deliver env s n)"] show ?case
    by (auto split: prod.splits)
qed

text \<open>
  C5.  On a progress notification whose status is not the success status, an \<^verbatim>\<open>"error"\<close>
  event whose data is the response text of the transport is dispatched in the state the
  instance was in, and the state is then \<open>CLOSED\<close> (announced by a
  \<^verbatim>\<open>"readystatechange"\<close> unless the instance was closed already).  When the instance was
  connecting, the handle is dropped and neither this notification nor any notification
  after it dispatches the \<^verbatim>\<open>"open"\<close> event.
\<close>

theorem failure_closes:
  assumes "xhr s = Some x" "status x \<noteq> 200"
  shows "readyState (fst (onStreamProgress env s e)) = CLOSED
     \<and> map (\<lambda>d. (d_event d, d_state d)) (fst (snd (onStreamProgress env s e))) =
         ((CustomEvent ''error'')\<lparr>ev_data := Some (response (currentTarget e))\<rparr>, readyState s)
         # (if readyState s = CLOSED then []
            else [((CustomEvent ''readystatechange'')\<lparr>ev_readyState := Some CLOSED\<rparr>, CLOSED)])
     \<and> (readyState s = CONNECTING \<longrightarrow>
          xhr (fst (onStreamProgress env s e)) = None
          \<and> CustomEvent ''open'' \<notin> set (map d_event
                (fst (snd (onStreamProgress env s e))
                 @ snd (deliver_all env (fst (onStreamProgress env s e)) ns))))"
proof (cases "readyState s = CLOSED")
  case True
  with assms show ?thesis
    by (simp add: onStreamProgress_def onStreamFailure_def close_idle dispatch_plain emit_Some
        CustomEvent_def Let_def CLOSED_def CONNECTING_def)
next
  case False
  with assms have run: "onStreamProgress env s e =
      (s\<lparr>xhr := None, readyState := CLOSED\<rparr>,
       emit env s (Some ((CustomEvent ''error'')\<lparr>ev_data := Some (response (currentTarget e))\<rparr>))
       @ emit env (s\<lparr>readyState := CLOSED\<rparr>)
           (Some ((CustomEvent ''readystatechange'')\<lparr>ev_readyState := Some CLOSED\<rparr>)),
       None)"
    by (simp add: onStreamProgress_def onStreamFailure_def close_live dispatch_plain
        CustomEvent_def Let_def)
  have "CustomEvent ''open'' \<notin> set (map d_event
      (snd (deliver_all env (s\<lparr>xhr := None, readyState := CLOSED\<rparr>) ns)))"
    by (rule deliver_all_without_handle) simp
  with False show ?thesis
    by (simp add: run emit_Some CustomEvent_def)
qed

theorem failure_closes_witness:
  "status \<lparr>status = 404, responseText = ''Not Found'', response = ''Not Found'',
           xhr_readyState = 3\<rparr> \<noteq> 200
   \<and> readyState (fst (onStreamProgress (\<lambda>n ev. False)
        ((new_sse 0)\<lparr>readyState := CONNECTING,
           xhr := Some \<lparr>status = 404, responseText = ''Not Found'', response = ''Not Found'',
                        xhr_readyState = 3\<rparr>\<rparr>)
        \<lparr>currentTarget = \<lparr>status = 404, responseText = ''Not Found'', response = ''Not Found'',
                          xhr_readyState = 3\<rparr>\<rparr>)) = CLOSED
   \<and> map (\<lambda>d. (ev_type (d_event d), ev_data (d_event d), d_state d))
        (fst (snd (onStreamProgress (\<lambda>n ev. False)
        ((new_sse 0)\<lparr>readyState := CONNECTING,
           xhr := Some \<lparr>status = 404, responseText = ''Not Found'', response = ''Not Found'',
                        xhr_readyState = 3\<rparr>\<rparr>)
        \<lparr>currentTarget = \<lparr>status = 404, responseText = ''Not Found'', response = ''Not Found'',
                          xhr_readyState = 3\<rparr>\<rparr>)))
     = [(''error'', Some ''Not Found'', CONNECTING), (''readystatechange'', None, CLOSED)]
   \<and> CustomEvent ''open'' \<notin> set (map d_event
        (snd (deliver_all (\<lambda>n ev. False)
          (fst (onStreamProgress (\<lambda>n ev. False)
            ((new_sse 0)\<lparr>readyState := CONNECTING,
               xhr := Some \<lparr>status = 404, responseText = ''Not Found'', response = ''Not Found'',
                            xhr_readyState = 3\<rparr>\<rparr>)
            \<lparr>currentTarget = \<lparr>status = 404, responseText = ''Not Found'', response = ''Not Found'',
                              xhr_readyState = 3\<rparr>\<rparr>))
          [Progress \<lparr>status = 200, responseText = ''data: a'', response = ''data: a'',
                     xhr_readyState = 3\<rparr>])))"
  using failure_closes [where s =
      "(new_sse 0)\<lparr>readyState := CONNECTING,
           xhr := Some \<lparr>status = 404, responseText = ''Not Found'', response = ''Not Found'',
                        xhr_readyState = 3\<rparr>\<rparr>"
      and x = "\<lparr>status = 404, responseText = ''Not Found'', response = ''Not Found'', xhr_readyState = 3\<rparr>"
      and env = "\<lambda>n ev. False"
      and e = "\<lparr>currentTarget = \<lparr>status = 404, responseText = ''Not Found'', response = ''Not Found'',
                          xhr_readyState = 3\<rparr>\<rparr>"
      and ns = "[Progress \<lparr>status = 200, responseText = ''data: a'', response = ''data: a'',
                     xhr_readyState = 3\<rparr>]"]
  by (simp add: new_sse_def onStreamProgress_def onStreamFailure_def close_def setReadyState_def
      dispatch_def then_do_def dispatchEvent_def dispatch_listeners_def listeners_at_def
      object_prototype_names_def CustomEvent_def CONNECTING_def CLOSED_def Let_def)

text \<open>
  C10.  \<^verbatim>\<open>close()\<close> on an instance that holds a transport and is not closed drops the
  handle and sets the state to \<open>CLOSED\<close>.  Every progress or readystatechange
  notification after that is a no-op: nothing is dispatched and the state stays as
  \<^verbatim>\<open>close()\<close> left it.
\<close>

theorem closed_ignores_notifications:
  assumes "xhr s \<noteq> None" "readyState s \<noteq> CLOSED"
    and "list_all progress_or_statechange ns"
  shows "xhr (fst (close env s)) = None
     \<and> readyState (fst (close env s)) = CLOSED
     \<and> deliver_all env (fst (close env s)) ns = (fst (close env s), [])"
proof -
  have idle: "deliver_all env t ns = (t, [])" if "xhr t = None" for t
    using assms(3) that
  proof (induction ns)
    case Nil
    then show ?case by simp
  next
    case (Cons n ns)
    from Cons.prems have "deliver env t n = (t, [], None)"
      by (cases n) (simp_all add: deliver_def onStreamProgress_def checkStreamClosed_def)
    with Cons show ?case by simp
  qed
  from assms(1,2) show ?thesis
    by (simp add: close_live idle)
qed

theorem closed_ignores_notifications_witness:
  "xhr ((new_sse 0)\<lparr>readyState := OPEN,
         xhr := Some \<lparr>status = 200, responseText = ''data: a'', response = ''data: a'',
                      xhr_readyState = 3\<rparr>\<rparr>) \<noteq> None
   \<and> OPEN \<noteq> CLOSED
   \<and> list_all progress_or_statechange
        [Progress \<lparr>status = 200, responseText = ''data: a'' @ [LF, LF], response = [],
                   xhr_readyState = 3\<rparr>,
         ReadyStateChange \<lparr>status = 200, responseText = ''data: a'' @ [LF, LF], response = [],
                   xhr_readyState = 4\<rparr>]
   \<and> readyState (fst (close (\<lambda>n ev. False)
        ((new_sse 0)\<lparr>readyState := OPEN,
           xhr := Some \<lparr>status = 200, responseText = ''data: a'', response = ''data: a'',
                        xhr_readyState = 3\<rparr>\<rparr>))) = CLOSED
   \<and> snd (deliver_all (\<lambda>n ev. False)
        (fst (close (\<lambda>n ev. False)
          ((new_sse 0)\<lparr>readyState := OPEN,
             xhr := Some \<lparr>status = 200, responseText = ''data: a'', response = ''data: a'',
                          xhr_readyState = 3\<rparr>\<rparr>)))
        [Progress \<lparr>status = 200, responseText = ''data: a'' @ [LF, LF], response = [],
                   xhr_readyState = 3\<rparr>,
         ReadyStateChange \<lparr>status = 200, responseText = ''data: a'' @ [LF, LF], response = [],
                   xhr_readyState = 4\<rparr>]) = []
   \<and> readyState (fst (deliver_all (\<lambda>n ev. False)
        (fst (close (\<lambda>n ev. False)
          ((new_sse 0)\<lparr>readyState := OPEN,
             xhr := Some \<lparr>status = 200, responseText = ''data: a'', response = ''data: a'',
                          xhr_readyState = 3\<rparr>\<rparr>)))
        [Progress \<lparr>status = 200, responseText = ''data: a'' @ [LF, LF], response = [],
                   xhr_readyState = 3\<rparr>,
         ReadyStateChange \<lparr>status = 200, responseText = ''data: a'' @ [LF, LF], response = [],
                   xhr_readyState = 4\<rparr>])) = CLOSED"
  using closed_ignores_notifications [where s =
      "(new_sse 0)\<lparr>readyState := OPEN,
         xhr := Some \<lparr>status = 200, responseText = ''data: a'', response = ''data: a'',
                      xhr_readyState = 3\<rparr>\<rparr>"
      and ns = "[Progress \<lparr>status = 200, responseText = ''data: a'' @ [LF, LF], response = [],
                   xhr_readyState = 3\<rparr>,
         ReadyStateChange \<lparr>status = 200, responseText = ''data: a'' @ [LF, LF], response = [],
                   xhr_readyState = 4\<rparr>]"
      and env = "\<lambda>n ev. False"]
  by (simp add: new_sse_def close_def setReadyState_def dispatch_def OPEN_def CLOSED_def Let_def
      split: prod.splits)

lemma ignored_lines_fold:
  "\<forall>line \<in> set lines. ignored_line sep line \<Longrightarrow> foldl (process_line sep) ef lines = ef"
  by (induction lines arbitrary: ef)
     (auto simp: process_line_def ignored_line_def split: option.splits)

text \<open>
  C9.  The parser returns an event for every non-empty record.  For a record all of whose
  lines are comments or carry an unrecognised field name, the event has type
  \<^verbatim>\<open>"message"\<close>, data \<^verbatim>\<open>""\<close> and id \<^verbatim>\<open>null\<close>, and when such a record is not white space
  only, the assembler's loop dispatches exactly that event for it.  With the separator
  \<^verbatim>\<open>":"\<close>, a line that starts with a colon is such a line, and so is a line without a
  colon that is not itself one of the four field names.
\<close>

theorem comment_record_event:
  "(str \<noteq> [] \<longrightarrow> parseEventChunk s str \<noteq> None)
   \<and> (str \<noteq> [] \<and> (\<forall>line \<in> set (split_lines str). ignored_line (FIELD_SEPARATOR s) line) \<longrightarrow>
        parseEventChunk s str = Some ((CustomEvent ''message'')\<lparr>ev_data := Some [], ev_id := None\<rparr>))
   \<and> (trim str \<noteq> []
        \<and> (\<forall>line \<in> set (split_lines str). ignored_line (FIELD_SEPARATOR s) line) \<longrightarrow>
        map d_event (fst (snd (forward_part env s str)))
          = [(CustomEvent ''message'')\<lparr>ev_data := Some [], ev_id := None\<rparr>]
        \<and> snd (snd (forward_part env s str)) = None)
   \<and> ignored_line '':'' (CHR '':'' # rest)
   \<and> (indexOf line '':'' < 0 \<and> line \<notin> set [''id'', ''retry'', ''data'', ''event'']
        \<longrightarrow> ignored_line '':'' line)"
proof (intro conjI impI)
  assume "str \<noteq> []"
  then show "parseEventChunk s str \<noteq> None" by (simp add: parseEventChunk_def Let_def)
next
  assume "str \<noteq> [] \<and> (\<forall>line \<in> set (split_lines str). ignored_line (FIELD_SEPARATOR s) line)"
  then show "parseEventChunk s str = Some ((CustomEvent ''message'')\<lparr>ev_data := Some [], ev_id := None\<rparr>)"
    by (simp add: parseEventChunk_def parse_fields_def ignored_lines_fold no_fields_def
        CustomEvent_def Let_def)
next
  assume a: "trim str \<noteq> []
        \<and> (\<forall>line \<in> set (split_lines str). ignored_line (FIELD_SEPARATOR s) line)"
  then have "str \<noteq> []" by auto
  with a have ev: "parseEventChunk s str = Some ((CustomEvent ''message'')\<lparr>ev_data := Some [], ev_id := None\<rparr>)"
    by (simp add: parseEventChunk_def parse_fields_def ignored_lines_fold no_fields_def
        CustomEvent_def Let_def)
  with a show "map d_event (fst (snd (forward_part env s str)))
          = [(CustomEvent ''message'')\<lparr>ev_data := Some [], ev_id := None\<rparr>]"
    and "snd (snd (forward_part env s str)) = None"
    by (simp_all add: forward_part_def dispatch_plain emit_Some CustomEvent_def)
next
  show "ignored_line '':'' (CHR '':'' # rest)"
    by (simp add: ignored_line_def parse_line_def)
next
  assume "indexOf line '':'' < 0 \<and> line \<notin> set [''id'', ''retry'', ''data'', ''event'']"
  then show "ignored_line '':'' line"
    by (simp add: ignored_line_def parse_line_def)
qed

theorem comment_record_event_witness:
  "'': keepalive'' \<noteq> []
   \<and> split_lines '': keepalive'' = ['': keepalive'']
   \<and> ignored_line '':'' '': keepalive''
   \<and> trim '': keepalive'' \<noteq> []
   \<and> parseEventChunk (new_sse 0) '': keepalive''
       = Some ((CustomEvent ''message'')\<lparr>ev_data := Some [], ev_id := None\<rparr>)
   \<and> map d_event (fst (snd (forward_part (\<lambda>n ev. False) (new_sse 0) '': keepalive'')))
       = [(CustomEvent ''message'')\<lparr>ev_data := Some [], ev_id := None\<rparr>]
   \<and> map d_event (fst (snd (onStreamProgress (\<lambda>n ev. False)
            ((new_sse 0)\<lparr>readyState := OPEN,
               xhr := Some \<lparr>status = 200, responseText = '': keepalive'' @ [LF, LF],
                            response = [], xhr_readyState = 3\<rparr>\<rparr>)
            \<lparr>currentTarget = \<lparr>status = 200, responseText = '': keepalive'' @ [LF, LF],
                            response = [], xhr_readyState = 3\<rparr>\<rparr>)))
       = [(CustomEvent ''message'')\<lparr>ev_data := Some [], ev_id := None\<rparr>]"
  using comment_record_event [where str = "'': keepalive''" and s = "new_sse 0"
      and env = "\<lambda>n ev. False" and rest = "'' keepalive''" and line = "[]"]
  by (simp add: new_sse_def split_lines_def split_records_def ignored_line_def parse_line_def
      trim_def is_space_def parseEventChunk_def parse_fields_def process_line_def no_fields_def
      onStreamProgress_def forward_part_def dispatch_def then_do_def dispatchEvent_def
      dispatch_listeners_def listeners_at_def object_prototype_names_def
      CustomEvent_def LF_def CR_def CONNECTING_def OPEN_def Let_def)

text \<open>
  C2, as amended.  The parser returns no event for the empty record, and for no other
  string.  While streaming, the assembler forwards no segment that is empty or white
  space only, so nothing is dispatched for it.  On completion, an empty pending tail
  dispatches nothing.
\<close>

theorem parser_null_only_for_empty:
  "(parseEventChunk s str = None \<longleftrightarrow> str = [])
   \<and> (trim str = [] \<longrightarrow> forward_part env s str = (s, [], None))
   \<and> (chunk (fst (onStreamProgress env s e)) = [] \<longrightarrow>
        fst (snd (onStreamLoaded env s e)) = fst (snd (onStreamProgress env s e)))"
proof (intro conjI impI)
  show "parseEventChunk s str = None \<longleftrightarrow> str = []"
    by (simp add: parseEventChunk_def Let_def)
next
  assume "trim str = []"
  then show "forward_part env s str = (s, [], None)" by (simp add: forward_part_def)
next
  assume empty: "chunk (fst (onStreamProgress env s e)) = []"
  obtain s1 tr err where run: "onStreamProgress env s e = (s1, tr, err)"
    by (metis prod_cases3)
  with empty have "parseEventChunk s1 (chunk s1) = None"
    by (simp add: parseEventChunk_def)
  with run show "fst (snd (onStreamLoaded env s e)) = fst (snd (onStreamProgress env s e))"
    by (cases err) (simp_all add: onStreamLoaded_def)
qed

text \<open>
  The claim as stated fails: for the record \<^verbatim>\<open>" "\<close> the parser returns a \<^verbatim>\<open>"message"\<close>
  event with empty data, and a stream \<^verbatim>\<open>"data: x\n\n\n"\<close> leaves the pending tail
  \<^verbatim>\<open>"\n"\<close>, for which the final pass dispatches such an event.
\<close>

theorem whitespace_record_counterexample:
  "trim '' '' = []
   \<and> parseEventChunk (new_sse 0) '' '' = Some ((CustomEvent ''message'')\<lparr>ev_data := Some []\<rparr>)
   \<and> trim [LF] = []
   \<and> map d_event (snd (deliver_all (\<lambda>n ev. False)
         ((new_sse 0)\<lparr>readyState := OPEN,
            xhr := Some \<lparr>status = 0, responseText = [], response = [], xhr_readyState = 1\<rparr>\<rparr>)
         [Progress \<lparr>status = 200, responseText = ''data: x'' @ [LF, LF, LF],
                    response = ''data: x'' @ [LF, LF, LF], xhr_readyState = 3\<rparr>,
          Load \<lparr>status = 200, responseText = ''data: x'' @ [LF, LF, LF],
                response = ''data: x'' @ [LF, LF, LF], xhr_readyState = 4\<rparr>]))
     = [(CustomEvent ''message'')\<lparr>ev_data := Some ''x''\<rparr>,
        (CustomEvent ''message'')\<lparr>ev_data := Some []\<rparr>]"
  by (simp add: new_sse_def split_records_def trim_def is_space_def parseEventChunk_def
      split_lines_def parse_fields_def process_line_def parse_line_def no_fields_def
      deliver_def onStreamProgress_def onStreamLoaded_def forward_part_def dispatch_def
      then_do_def dispatchEvent_def dispatch_listeners_def listeners_at_def
      object_prototype_names_def
      CustomEvent_def LF_def CR_def CONNECTING_def OPEN_def Let_def)

theorem parser_null_only_for_empty_witness:
  "parseEventChunk (new_sse 0) [] = None
   \<and> trim [LF, LF] = []
   \<and> fst (snd (forward_part (\<lambda>n ev. False) (new_sse 0) [LF, LF])) = []
   \<and> chunk (fst (onStreamProgress (\<lambda>n ev. False)
        ((new_sse 0)\<lparr>readyState := OPEN,
           xhr := Some \<lparr>status = 200, responseText = ''data: x'' @ [LF, LF],
                        response = [], xhr_readyState = 4\<rparr>\<rparr>)
        \<lparr>currentTarget = \<lparr>status = 200, responseText = ''data: x'' @ [LF, LF],
                        response = [], xhr_readyState = 4\<rparr>\<rparr>)) = []
   \<and> map d_event (fst (snd (onStreamLoaded (\<lambda>n ev. False)
        ((new_sse 0)\<lparr>readyState := OPEN,
           xhr := Some \<lparr>status = 200, responseText = ''data: x'' @ [LF, LF],
                        response = [], xhr_readyState = 4\<rparr>\<rparr>)
        \<lparr>currentTarget = \<lparr>status = 200, responseText = ''data: x'' @ [LF, LF],
                        response = [], xhr_readyState = 4\<rparr>\<rparr>)))
      = [(CustomEvent ''message'')\<lparr>ev_data := Some ''x''\<rparr>]"
  using parser_null_only_for_empty [where s =
        "(new_sse 0)\<lparr>readyState := OPEN,
           xhr := Some \<lparr>status = 200, responseText = ''data: x'' @ [LF, LF],
                        response = [], xhr_readyState = 4\<rparr>\<rparr>"
        and str = "[]" and env = "\<lambda>n ev. False"
        and e = "\<lparr>currentTarget = \<lparr>status = 200, responseText = ''data: x'' @ [LF, LF],
                        response = [], xhr_readyState = 4\<rparr>\<rparr>"]
    parser_null_only_for_empty [where s = "new_sse 0" and str = "[LF, LF]" and env = "\<lambda>n ev. False"
        and e = "\<lparr>currentTarget = \<lparr>status = 0, responseText = [], response = [],
                        xhr_readyState = 0\<rparr>\<rparr>"]
  by (simp add: new_sse_def split_records_def trim_def is_space_def parseEventChunk_def
      split_lines_def parse_fields_def process_line_def parse_line_def no_fields_def
      onStreamProgress_def onStreamLoaded_def forward_part_def dispatch_def then_do_def
      dispatchEvent_def dispatch_listeners_def listeners_at_def object_prototype_names_def
      CustomEvent_def LF_def CR_def CONNECTING_def OPEN_def Let_def)

lemma cumulative_tail: "cumulative (t # ts) \<Longrightarrow> cumulative ts"
  by (cases ts) simp_all

lemma cumulative_last: "cumulative (t # ts) \<Longrightarrow> \<exists>u. last (t # ts) = t @ u"
proof (induction ts arbitrary: t)
  case Nil
  then show ?case by simp
next
  case (Cons a ts)
  then have "take (length t) a = t" and "cumulative (a # ts)" by simp_all
  then obtain u where "a = t @ drop (length t) a" and "last (a # ts) = a @ u"
    using Cons.IH by (metis append_take_drop_id)
  then have "last (t # a # ts) = t @ (drop (length t) a @ u)"
    by (metis append.assoc last_ConsR list.distinct(1))
  then show ?case by blast
qed

lemma cumulative_drop: "cumulative ts \<Longrightarrow> cumulative (drop i ts)"
proof (induction i arbitrary: ts)
  case 0
  then show ?case by simp
next
  case (Suc i)
  then show ?case by (cases ts) (auto dest: cumulative_tail)
qed

lemma cumulative_nth_last:
  assumes "cumulative ts" "i < length ts"
  shows "\<exists>u. last ts = ts ! i @ u"
proof -
  from assms(2) have d: "drop i ts = ts ! i # drop (Suc i) ts"
    by (simp add: Cons_nth_drop_Suc)
  from assms(1) have "cumulative (drop i ts)" by (rule cumulative_drop)
  then obtain u where "last (drop i ts) = ts ! i @ u"
    unfolding d using cumulative_last by blast
  with assms(2) show ?thesis by auto
qed

text \<open>The complete segments of a prefix are complete segments of the whole text.\<close>

lemma prefix_segments:
  "set (butlast (split_records t)) \<subseteq> set (butlast (split_records (t @ u)))"
  by (simp add: split_records_append_butlast [of t u])

text \<open>
  Fragmented delivery.  A text splits into records \<open>r\<close>, none of them white space only,
  each followed by its delimiter \<open>d\<close>, and a non-empty trailing piece \<open>tail\<close>; no record
  and not the trailing piece names an inherited property as its event type.  The text is
  delivered to a live instance with an empty buffer by progress notifications with
  success status whose response texts are cumulative and end with the whole text, in
  whatever fragments (one code unit at a time included).  Then the events dispatched
  while streaming are, after \<^verbatim>\<open>"open"\<close> and \<^verbatim>\<open>"readystatechange"\<close> when the instance was
  connecting, exactly the events parsed from the records, one per record and in order;
  the trailing piece is the pending tail; the load notification dispatches exactly one
  more event, parsed from the trailing piece, and clears the tail.  After each
  notification the pending tail is the last piece of the text received so far.
\<close>

theorem fragmented_delivery:
  assumes live: "xhr s \<noteq> None" and fresh: "progress s = 0" "chunk s = []"
    and ok: "\<forall>x \<in> set xs. status x = 200" "status xl = 200"
    and frag: "xs \<noteq> []" "cumulative (map responseText xs)"
      "responseText (last xs) = str" "responseText xl = str"
    and recs: "split_records str = record_pieces rds tail"
      "\<forall>(r, d) \<in> set rds. trim r \<noteq> []" "tail \<noteq> []"
    and plain: "\<forall>(r, d) \<in> set rds. plain_record s r" "plain_record s tail"
  shows "map d_event (snd (deliver_all env s (map Progress xs))) =
           (if readyState s = CONNECTING
            then [CustomEvent ''open'',
                  (CustomEvent ''readystatechange'')\<lparr>ev_readyState := Some OPEN\<rparr>]
            else [])
           @ map (\<lambda>(r, d). the (parseEventChunk s r)) rds
       \<and> chunk (fst (deliver_all env s (map Progress xs))) = tail
       \<and> map d_event (fst (snd (deliver env (fst (deliver_all env s (map Progress xs))) (Load xl))))
           = [the (parseEventChunk s tail)]
       \<and> chunk (fst (deliver env (fst (deliver_all env s (map Progress xs))) (Load xl))) = []
       \<and> (\<forall>k. 0 < k \<and> k \<le> length xs \<longrightarrow>
            chunk (fst (deliver_all env s (map Progress (take k xs))))
              = last (split_records (responseText (xs ! (k - 1)))))"
proof -
  let ?s1 = "if readyState s = CONNECTING then s\<lparr>readyState := OPEN\<rparr> else s"
  have delims: "\<forall>(r, d) \<in> set rds. trim d = []"
    using recs(1) by (rule split_records_delimiters)
  have segs: "\<forall>p \<in> set (butlast (split_records str)). trim p \<noteq> [] \<longrightarrow> plain_record s p"
    unfolding recs(1) butlast_record_pieces using delims plain(1) by auto
  from streaming_run [OF live fresh ok(1) frag(1,2), of env] segs
  obtain s' where run: "deliver_all env s (map Progress xs) =
        (s', (if readyState s = CONNECTING
              then emit env s (Some (CustomEvent ''open''))
                   @ emit env (s\<lparr>readyState := OPEN\<rparr>)
                       (Some ((CustomEvent ''readystatechange'')\<lparr>ev_readyState := Some OPEN\<rparr>))
              else [])
             @ concat (map (emit_part env ?s1) (butlast (split_records (responseText (last xs))))))"
    and frame: "chunk s' = last (split_records (responseText (last xs)))"
      "progress s' = length (responseText (last xs))"
      "xhr s' \<noteq> None"
      "readyState s' = (if readyState s = CONNECTING then OPEN else readyState s)"
      "self s' = self s" "handlers s' = handlers s" "listeners s' = listeners s"
      "FIELD_SEPARATOR s' = FIELD_SEPARATOR s"
    unfolding frag(3) by blast
  have parse: "parseEventChunk ?s1 = parseEventChunk s" "parseEventChunk s' = parseEventChunk s"
    using frame(8) by (auto simp: parseEventChunk_def fun_eq_iff)
  have "map d_event (concat (map (emit_part env ?s1) (butlast (split_records str))))
      = map (\<lambda>(r, d). the (parseEventChunk ?s1 r)) rds"
    unfolding recs(1) butlast_record_pieces using recs(2) delims by (rule emit_records)
  then have streamed: "map d_event (snd (deliver_all env s (map Progress xs))) =
           (if readyState s = CONNECTING
            then [CustomEvent ''open'',
                  (CustomEvent ''readystatechange'')\<lparr>ev_readyState := Some OPEN\<rparr>]
            else [])
           @ map (\<lambda>(r, d). the (parseEventChunk s r)) rds"
    unfolding run parse frag(3) by (simp add: emit_Some)
  have tail: "chunk s' = tail"
    using frame(1) by (simp add: frag(3) recs(1))
  have nc: "readyState s' \<noteq> CONNECTING"
    using frame(4) by simp
  have ptail: "plain_record s' (chunk s')"
    using plain(2) by (simp add: tail plain_record_def parse)
  have "deliver env s' (Load xl) =
     (s'\<lparr>xhr := Some xl, chunk := []\<rparr>, emit env s' (parseEventChunk s' (chunk s')), None)"
    by (rule load_after_stream [OF frame(3) ok(2) nc _ _ ptail]) (simp_all add: frame frag)
  with tail recs(3) have loaded:
    "map d_event (fst (snd (deliver env s' (Load xl)))) = [the (parseEventChunk s tail)]"
    "chunk (fst (deliver env s' (Load xl))) = []"
    by (auto simp: parse emit_Some parseEventChunk_def Let_def)
  have each: "chunk (fst (deliver_all env s (map Progress (take k xs))))
              = last (split_records (responseText (xs ! (k - 1))))"
    if k: "0 < k" "k \<le> length xs" for k
  proof -
    have ne: "take k xs \<noteq> []" using k frag(1) by auto
    have ok': "\<forall>x \<in> set (take k xs). status x = 200"
      using ok(1) by (auto dest: in_set_takeD)
    have cum: "cumulative (map responseText (take k xs))"
      using frag(2) by (simp add: take_map [symmetric] cumulative_take)
    have last: "last (take k xs) = xs ! (k - 1)"
      using k by (rule last_take)
    from k frag(1) have "\<exists>u. last (map responseText xs) = map responseText xs ! (k - 1) @ u"
      by (intro cumulative_nth_last [OF frag(2)]) simp
    then obtain u where "str = responseText (xs ! (k - 1)) @ u"
      using k frag(1,3) by (auto simp: last_map)
    then have "set (butlast (split_records (responseText (xs ! (k - 1)))))
        \<subseteq> set (butlast (split_records str))"
      using prefix_segments by metis
    with segs have segs': "\<forall>p \<in> set (butlast (split_records (responseText (last (take k xs))))).
        trim p \<noteq> [] \<longrightarrow> plain_record s p"
      unfolding last by blast
    from streaming_run [OF live fresh ok' ne cum segs', of env] show ?thesis
      by (auto simp: last)
  qed
  from streamed tail loaded each show ?thesis
    by (simp add: run)
qed

theorem fragmented_delivery_witness:
  "xhr ((new_sse 0)\<lparr>readyState := CONNECTING,
          xhr := Some \<lparr>status = 0, responseText = [], response = [], xhr_readyState = 1\<rparr>\<rparr>) \<noteq> None
   \<and> list_all (\<lambda>x. status x = 200)
        (map (\<lambda>t. \<lparr>status = 200, responseText = t, response = t, xhr_readyState = 3\<rparr>)
           [''da'', ''data: a'' @ [LF], ''data: a'' @ [LF, LF] @ ''da'',
            ''data: a'' @ [LF, LF] @ ''data: b''])
   \<and> cumulative [''da'', ''data: a'' @ [LF], ''data: a'' @ [LF, LF] @ ''da'',
            ''data: a'' @ [LF, LF] @ ''data: b'']
   \<and> split_records (''data: a'' @ [LF, LF] @ ''data: b'')
       = record_pieces [(''data: a'', [LF, LF])] ''data: b''
   \<and> trim ''data: a'' \<noteq> []
   \<and> plain_record (new_sse 0) ''data: a''
   \<and> plain_record (new_sse 0) ''data: b''
   \<and> map d_event (snd (deliver_all (\<lambda>n ev. False)
         ((new_sse 0)\<lparr>readyState := CONNECTING,
            xhr := Some \<lparr>status = 0, responseText = [], response = [], xhr_readyState = 1\<rparr>\<rparr>)
         (map Progress
           (map (\<lambda>t. \<lparr>status = 200, responseText = t, response = t, xhr_readyState = 3\<rparr>)
              [''da'', ''data: a'' @ [LF], ''data: a'' @ [LF, LF] @ ''da'',
               ''data: a'' @ [LF, LF] @ ''data: b'']))))
       = [CustomEvent ''open'',
          (CustomEvent ''readystatechange'')\<lparr>ev_readyState := Some OPEN\<rparr>,
          (CustomEvent ''message'')\<lparr>ev_data := Some ''a''\<rparr>]
   \<and> map d_event (fst (snd (deliver (\<lambda>n ev. False)
         (fst (deliver_all (\<lambda>n ev. False)
           ((new_sse 0)\<lparr>readyState := CONNECTING,
              xhr := Some \<lparr>status = 0, responseText = [], response = [], xhr_readyState = 1\<rparr>\<rparr>)
           (map Progress
             (map (\<lambda>t. \<lparr>status = 200, responseText = t, response = t, xhr_readyState = 3\<rparr>)
                [''da'', ''data: a'' @ [LF], ''data: a'' @ [LF, LF] @ ''da'',
                 ''data: a'' @ [LF, LF] @ ''data: b'']))))
         (Load \<lparr>status = 200, responseText = ''data: a'' @ [LF, LF] @ ''data: b'',
                response = ''data: a'' @ [LF, LF] @ ''data: b'', xhr_readyState = 4\<rparr>))))
       = [(CustomEvent ''message'')\<lparr>ev_data := Some ''b''\<rparr>]"
  using fragmented_delivery [where s =
      "(new_sse 0)\<lparr>readyState := CONNECTING,
          xhr := Some \<lparr>status = 0, responseText = [], response = [], xhr_readyState = 1\<rparr>\<rparr>"
      and xs = "map (\<lambda>t. \<lparr>status = 200, responseText = t, response = t, xhr_readyState = 3\<rparr>)
           [''da'', ''data: a'' @ [LF], ''data: a'' @ [LF, LF] @ ''da'',
            ''data: a'' @ [LF, LF] @ ''data: b'']"
      and xl = "\<lparr>status = 200, responseText = ''data: a'' @ [LF, LF] @ ''data: b'',
                response = ''data: a'' @ [LF, LF] @ ''data: b'', xhr_readyState = 4\<rparr>"
      and str = "''data: a'' @ [LF, LF] @ ''data: b''"
      and rds = "[(''data: a'', [LF, LF])]" and tail = "''data: b''"
      and env = "\<lambda>n ev. False"]
  by (simp add: new_sse_def split_records_def trim_def is_space_def parseEventChunk_def
      plain_record_def object_prototype_names_def
      split_lines_def parse_fields_def process_line_def parse_line_def no_fields_def
      CustomEvent_def LF_def CR_def CONNECTING_def OPEN_def Let_def)

text \<open>
  C3.  The claim fails on a record whose event type names a property that
  \<^verbatim>\<open>this.listeners\<close> inherits.  The text
  \<^verbatim>\<open>"event: toString\n\ndata: b\n\ndata: c"\<close> has two complete records and a trailing
  one.  Delivered in one progress notification, \<^verbatim>\<open>dispatchEvent\<close> throws on the first
  record: the second record is not dispatched and the trailing piece is not kept as the
  pending tail, so the load notification dispatches nothing either.
\<close>

theorem inherited_type_stops_delivery:
  "split_records (''event: toString'' @ [LF, LF] @ ''data: b'' @ [LF, LF] @ ''data: c'')
     = record_pieces [(''event: toString'', [LF, LF]), (''data: b'', [LF, LF])] ''data: c''
   \<and> map (\<lambda>d. (ev_type (d_event d), d_result d))
        (snd (deliver_all (\<lambda>n ev. False)
          ((new_sse 0)\<lparr>readyState := CONNECTING,
             xhr := Some \<lparr>status = 0, responseText = [], response = [], xhr_readyState = 1\<rparr>\<rparr>)
          [Progress \<lparr>status = 200,
             responseText = ''event: toString'' @ [LF, LF] @ ''data: b'' @ [LF, LF] @ ''data: c'',
             response = [], xhr_readyState = 3\<rparr>]))
     = [(''open'', Inr True), (''readystatechange'', Inr True), (''toString'', Inl TypeError)]
   \<and> chunk (fst (deliver_all (\<lambda>n ev. False)
          ((new_sse 0)\<lparr>readyState := CONNECTING,
             xhr := Some \<lparr>status = 0, responseText = [], response = [], xhr_readyState = 1\<rparr>\<rparr>)
          [Progress \<lparr>status = 200,
             responseText = ''event: toString'' @ [LF, LF] @ ''data: b'' @ [LF, LF] @ ''data: c'',
             response = [], xhr_readyState = 3\<rparr>])) = []
   \<and> map (\<lambda>d. (ev_type (d_event d), d_result d))
        (snd (deliver_all (\<lambda>n ev. False)
          ((new_sse 0)\<lparr>readyState := CONNECTING,
             xhr := Some \<lparr>status = 0, responseText = [], response = [], xhr_readyState = 1\<rparr>\<rparr>)
          [Progress \<lparr>status = 200,
             responseText = ''event: toString'' @ [LF, LF] @ ''data: b'' @ [LF, LF] @ ''data: c'',
             response = [], xhr_readyState = 3\<rparr>,
           Load \<lparr>status = 200,
             responseText = ''event: toString'' @ [LF, LF] @ ''data: b'' @ [LF, LF] @ ''data: c'',
             response = [], xhr_readyState = 4\<rparr>]))
     = [(''open'', Inr True), (''readystatechange'', Inr True), (''toString'', Inl TypeError)]"
  by (simp add: new_sse_def split_records_def record_pieces_def trim_def is_space_def
      parseEventChunk_def split_lines_def parse_fields_def process_line_def parse_line_def
      no_fields_def deliver_def onStreamProgress_def onStreamLoaded_def forward_part_def
      dispatch_def dispatchEvent_def dispatch_listeners_def listeners_at_def
      setReadyState_def then_do_def invoke_def object_prototype_names_def
      CustomEvent_def LF_def CR_def CONNECTING_def OPEN_def Let_def)

end
